theory Spec2Isabelle
  imports Main
begin

section \<open>Change records (InlineDiff.ts, lines 5-26)\<close>

text \<open>
  The three TypeScript types \<^verbatim>\<open>RemovedChange\<close>, \<^verbatim>\<open>AddedChange\<close> and \<^verbatim>\<open>Change\<close>.
  Line numbers and counts are JavaScript numbers that only ever hold integers here,
  so they are \<^typ>\<open>int\<close>: the renumbering \<^verbatim>\<open>line -= count\<close> is plain subtraction.
\<close>

datatype RemovedChange = RemovedChange (rline: int) (rcount: int) (rvalue: string)

datatype AddedChange = AddedChange (aline: int) (acount: int) (avalue: string)

datatype Change =
    Removed RemovedChange
  | Added AddedChange
  | Modified RemovedChange AddedChange

text \<open>
  One element of the array returned by the library function \<^verbatim>\<open>diffLines\<close>: the fields
  \<^verbatim>\<open>value\<close>, \<^verbatim>\<open>count\<close>, \<^verbatim>\<open>added\<close> and \<^verbatim>\<open>removed\<close> that the loop of \<^verbatim>\<open>openDiffView\<close> reads.
\<close>

datatype Part = Part (part_value: string) (part_count: int) (part_added: bool) (part_removed: bool)

section \<open>The changeset builder (openDiffView, lines 592-642)\<close>

text \<open>
  The local variables of the loop: \<^verbatim>\<open>lineNumber\<close>, \<^verbatim>\<open>combineContent\<close>, the array
  \<^verbatim>\<open>changes\<close> (here \<open>emitted\<close>) and \<^verbatim>\<open>lastRemoved\<close>.
\<close>

record DiffLoop =
  lineNumber :: int
  combineContent :: string
  emitted :: "Change list"
  lastRemoved :: "RemovedChange option"

definition loopStart :: DiffLoop where
  "loopStart = \<lparr>lineNumber = 0, combineContent = [], emitted = [], lastRemoved = None\<rparr>"

text \<open>
  One iteration of \<^verbatim>\<open>for (const part of differences)\<close>. The flag \<open>isLast\<close> is the test
  \<^verbatim>\<open>part === differences[differences.length - 1]\<close>. A removed part that is the last one
  is pushed at once and stays in \<^verbatim>\<open>lastRemoved\<close>, as in the source.
\<close>

definition loopBody :: "Part \<Rightarrow> bool \<Rightarrow> DiffLoop \<Rightarrow> DiffLoop" where
  "loopBody part isLast st =
     (let st' =
        (if part_removed part then
           (let lr = RemovedChange (lineNumber st) (part_count part) (part_value part)
            in if isLast
               then st\<lparr>emitted := emitted st @ [Removed lr], lastRemoved := Some lr\<rparr>
               else st\<lparr>lastRemoved := Some lr\<rparr>)
         else if part_added part then
           (let added = AddedChange (lineNumber st) (part_count part) (part_value part)
            in case lastRemoved st of
                 Some lr \<Rightarrow> st\<lparr>emitted := emitted st @ [Modified lr added], lastRemoved := None\<rparr>
               | None \<Rightarrow> st\<lparr>emitted := emitted st @ [Added added]\<rparr>)
         else
           (case lastRemoved st of
              Some lr \<Rightarrow> st\<lparr>emitted := emitted st @ [Removed lr], lastRemoved := None\<rparr>
            | None \<Rightarrow> st))
      in st'\<lparr>combineContent := combineContent st' @ part_value part,
             lineNumber := lineNumber st' + part_count part\<rparr>)"

fun diffLoop :: "Part list \<Rightarrow> DiffLoop \<Rightarrow> DiffLoop" where
  "diffLoop [] st = st"
| "diffLoop (part # rest) st = diffLoop rest (loopBody part (rest = []) st)"

definition buildChanges :: "Part list \<Rightarrow> Change list" where
  "buildChanges differences = emitted (diffLoop differences loopStart)"

definition buildCombined :: "Part list \<Rightarrow> string" where
  "buildCombined differences = combineContent (diffLoop differences loopStart)"

section \<open>The merge rule in the words of the specification\<close>

datatype SegKind = Unchanged | AddedSeg | RemovedSeg

text \<open>The kind of a segment, read off the flags in the order the loop tests them.\<close>

definition kind :: "Part \<Rightarrow> SegKind" where
  "kind p = (if part_removed p then RemovedSeg else if part_added p then AddedSeg else Unchanged)"

definition asRemoved :: "int \<Rightarrow> Part \<Rightarrow> RemovedChange" where
  "asRemoved n p = RemovedChange n (part_count p) (part_value p)"

definition asAdded :: "int \<Rightarrow> Part \<Rightarrow> AddedChange" where
  "asAdded n p = AddedChange n (part_count p) (part_value p)"

text \<open>
  The records the specification asks for, by adjacency of segments: a removed segment
  directly followed by an added one gives one \<open>Modified\<close>; any other removed segment
  gives a standalone \<open>Removed\<close>; an added segment that was not consumed by a preceding
  removed segment gives a standalone \<open>Added\<close>. The counter \<open>n\<close> advances by every
  segment's count.
\<close>

fun mergeSpec :: "int \<Rightarrow> Part list \<Rightarrow> Change list" where
  "mergeSpec n [] = []"
| "mergeSpec n [p] =
     (case kind p of
        RemovedSeg \<Rightarrow> [Removed (asRemoved n p)]
      | AddedSeg \<Rightarrow> [Added (asAdded n p)]
      | Unchanged \<Rightarrow> [])"
| "mergeSpec n (p # q # ps) =
     (case kind p of
        RemovedSeg \<Rightarrow>
          (if kind q = AddedSeg
           then Modified (asRemoved n p) (asAdded (n + part_count p) q)
                  # mergeSpec (n + part_count p + part_count q) ps
           else Removed (asRemoved n p) # mergeSpec (n + part_count p) (q # ps))
      | AddedSeg \<Rightarrow> Added (asAdded n p) # mergeSpec (n + part_count p) (q # ps)
      | Unchanged \<Rightarrow> mergeSpec (n + part_count p) (q # ps))"

text \<open>
  The line differ reports maximal runs, so two removed segments are never adjacent.
\<close>

fun noAdjacentRemoved :: "Part list \<Rightarrow> bool" where
  "noAdjacentRemoved [] = True"
| "noAdjacentRemoved [p] = True"
| "noAdjacentRemoved (p # q # ps) =
     (\<not> (part_removed p \<and> part_removed q) \<and> noAdjacentRemoved (q # ps))"

text \<open>What the loop still owes when a removed record is pending.\<close>

fun pendingSpec :: "RemovedChange \<Rightarrow> int \<Rightarrow> Part list \<Rightarrow> Change list" where
  "pendingSpec lr n [] = []"
| "pendingSpec lr n (q # qs) =
     (if kind q = AddedSeg
      then Modified lr (asAdded n q) # mergeSpec (n + part_count q) qs
      else Removed lr # mergeSpec (n + part_count q) qs)"

section \<open>The host: documents, positions, ranges and edits\<close>

text \<open>
  The editor host is outside the repository. Its part in the claims is small and is written
  out here: a document is its text; \<^verbatim>\<open>Position(line, 0)\<close> is the offset of the start of
  that line, and a line past the last one is clamped to the end of the document; the
  \<^verbatim>\<open>Position\<close> constructor throws on a negative line; a \<^verbatim>\<open>Range\<close> orders its two ends.
\<close>

definition LF :: char where
  "LF = CHR 0x0A"

definition CR :: char where
  "CR = CHR 0x0D"

datatype Error = TypeError | IllegalArgument | EditFailed

datatype Range = Range (startLine: nat) (endLine: nat)

definition newRange :: "int \<Rightarrow> int \<Rightarrow> Range option" where
  "newRange l1 l2 =
     (if l1 < 0 \<or> l2 < 0 then None else Some (Range (nat (min l1 l2)) (nat (max l1 l2))))"

definition lineCount :: "string \<Rightarrow> int" where
  "lineCount txt = 1 + int (length (filter (\<lambda>c. c = LF) txt))"

fun lineOffset :: "nat \<Rightarrow> string \<Rightarrow> nat" where
  "lineOffset 0 txt = 0"
| "lineOffset (Suc l) [] = 0"
| "lineOffset (Suc l) (c # cs) = Suc (lineOffset (if c = LF then l else Suc l) cs)"

text \<open>
  The host stores every document with one kind of line terminator and rewrites the text
  of an insertion to it: each \<^verbatim>\<open>\r\n\<close>, lone \<^verbatim>\<open>\r\<close> and \<^verbatim>\<open>\n\<close> becomes the terminator \<open>eol\<close> of
  the buffer.
\<close>

fun normalizeEol :: "string \<Rightarrow> string \<Rightarrow> string" where
  "normalizeEol eol [] = []"
| "normalizeEol eol [c] = (if c = CR \<or> c = LF then eol else [c])"
| "normalizeEol eol (c # d # cs) =
     (if c = CR \<and> d = LF then eol @ normalizeEol eol cs
      else if c = CR \<or> c = LF then eol @ normalizeEol eol (d # cs)
      else c # normalizeEol eol (d # cs))"

text \<open>
  A text edit is a list of replacements. The host resolves every range against the
  document as it was before the edit and applies the replacements together; the lists
  built below run from the bottom of the document to the top over disjoint ranges, so
  replacing in list order is that simultaneous application.
\<close>

definition applyEdits :: "string \<Rightarrow> string \<Rightarrow> (Range \<times> string) list \<Rightarrow> string" where
  "applyEdits eol txt edits =
     foldl (\<lambda>t (a, b, v). take a t @ v @ drop b t) txt
       (map (\<lambda>(rg, v). (lineOffset (startLine rg) txt, lineOffset (endLine rg) txt,
                         normalizeEol eol v)) edits)"

text \<open>\<^verbatim>\<open>data.content.replace(/\r?\n/g, lineEol)\<close>\<close>

fun replaceEol :: "string \<Rightarrow> string \<Rightarrow> string" where
  "replaceEol eol [] = []"
| "replaceEol eol [c] = (if c = LF then eol else [c])"
| "replaceEol eol (c # d # cs) =
     (if c = CR \<and> d = LF then eol @ replaceEol eol cs
      else if c = LF then eol @ replaceEol eol (d # cs)
      else c # replaceEol eol (d # cs))"

section \<open>The changeset store and the state of the extension\<close>

text \<open>
  A \<^verbatim>\<open>vscode.Uri\<close> with the two components the code reads. The keys of \<^verbatim>\<open>fileChangeMap\<close>
  are \<^verbatim>\<open>uri.toString()\<close>, which determines the \<^verbatim>\<open>Uri\<close>, so the map is keyed by it.
\<close>

datatype Uri = Uri (scheme: string) (fsPath: string)

record FileChange =
  originalContent :: string
  modifiedContent :: string
  changes :: "Change list"

record TextDocument =
  getText :: string
  isDirty :: bool
  eolCRLF :: bool

text \<open>The line terminator of a document (\<^verbatim>\<open>document.eol\<close>, lines 584-585).\<close>

definition lineEol :: "TextDocument \<Rightarrow> string" where
  "lineEol doc = (if eolCRLF doc then [CR, LF] else [LF])"

datatype ChangeType = AddEvent | AcceptEvent | RejectEvent

datatype HostCall = Save Uri | CloseActiveEditor

text \<open>
  What the operations read and write: the store, the open documents, the active editor
  (\<^verbatim>\<open>vscode.window.activeTextEditor\<close>, by the \<^verbatim>\<open>Uri\<close> of its document) and the line of
  its cursor, the context key \<^verbatim>\<open>aider-composer.hasChanges\<close>, the events fired on
  \<^verbatim>\<open>_onDidChange\<close>, the save and close requests sent to the host, and which paths
  \<^verbatim>\<open>workspace.fs.stat\<close> finds. Decorations and code lenses are drawn from \<open>changes\<close> and
  are not part of the state.
\<close>

record State =
  fileChangeMap :: "Uri \<rightharpoonup> FileChange"
  documents :: "Uri \<Rightarrow> TextDocument"
  activeTextEditor :: "Uri option"
  selectionLine :: int
  hasChanges :: bool
  fired :: "(ChangeType \<times> string) list"
  hostCalls :: "HostCall list"
  fsStat :: "string \<Rightarrow> bool"

text \<open>
  A call either returns or throws (its promise is rejected); the state at that moment
  comes with it.
\<close>

datatype Outcome = Done State | Thrown Error State

text \<open>
  How the host answers a text edit: it applies it (the promise resolves to \<^verbatim>\<open>true\<close>),
  it refuses it (resolves to \<^verbatim>\<open>false\<close>), or the call fails (the promise is rejected).
\<close>

datatype EditReply = Applied | Refused | Failed

definition hostEdit :: "EditReply \<Rightarrow> Uri \<Rightarrow> (Range \<times> string) list \<Rightarrow> State \<Rightarrow> Outcome" where
  "hostEdit reply uri edits s =
     (case reply of
        Failed \<Rightarrow> Thrown EditFailed s
      | Refused \<Rightarrow> Done s
      | Applied \<Rightarrow>
          (if edits = [] then Done s
           else Done (s\<lparr>documents := (documents s)
                  (uri := (documents s uri)
                     \<lparr>getText := applyEdits (lineEol (documents s uri))
                                   (getText (documents s uri)) edits,
                      isDirty := True\<rparr>)\<rparr>)))"

text \<open>\<^verbatim>\<open>editor.edit((edit) => edit.replace(range, value))\<close>; an unassigned range is a type error.\<close>

definition editorEdit :: "EditReply \<Rightarrow> Uri \<Rightarrow> Range option \<Rightarrow> string \<Rightarrow> State \<Rightarrow> Outcome" where
  "editorEdit reply uri rng v s =
     (case rng of
        None \<Rightarrow> Thrown TypeError s
      | Some rg \<Rightarrow> hostEdit reply uri [(rg, v)] s)"

text \<open>
  \<^verbatim>\<open>saveDocument\<close> (lines 499-505): a dirty document is saved, a clean one is left alone.
  The host's \<^verbatim>\<open>save\<close>, \<^verbatim>\<open>showTextDocument\<close> and the close command are taken to succeed.
\<close>

definition saveDocument :: "Uri \<Rightarrow> State \<Rightarrow> State" where
  "saveDocument uri s =
     (if isDirty (documents s uri)
      then s\<lparr>documents := (documents s)(uri := (documents s uri)\<lparr>isDirty := False\<rparr>),
             hostCalls := hostCalls s @ [Save uri]\<rparr>
      else s)"

definition closeActiveEditor :: "State \<Rightarrow> State" where
  "closeActiveEditor s = s\<lparr>activeTextEditor := None, hostCalls := hostCalls s @ [CloseActiveEditor]\<rparr>"

definition showTextDocument :: "Uri \<Rightarrow> State \<Rightarrow> State" where
  "showTextDocument uri s = s\<lparr>activeTextEditor := Some uri\<rparr>"

section \<open>Renumbering and redrawing (drawChanges, lines 241-325)\<close>

definition shiftLines :: "int \<Rightarrow> Change \<Rightarrow> Change" where
  "shiftLines n change =
     (case change of
        Modified r a \<Rightarrow>
          Modified (RemovedChange (rline r - n) (rcount r) (rvalue r))
                   (AddedChange (aline a - n) (acount a) (avalue a))
      | Removed r \<Rightarrow> Removed (RemovedChange (rline r - n) (rcount r) (rvalue r))
      | Added a \<Rightarrow> Added (AddedChange (aline a - n) (acount a) (avalue a)))"

text \<open>
  The lines given to \<^verbatim>\<open>new vscode.Position(line, 0)\<close> when the decorations of one record
  are built (lines 287-319). The constructor throws on a negative line.
\<close>

definition positionLines :: "Change \<Rightarrow> int list" where
  "positionLines change =
     (case change of
        Removed r \<Rightarrow> [rline r, rline r + rcount r - 1]
      | Added a \<Rightarrow> [aline a, aline a + acount a - 1]
      | Modified r a \<Rightarrow> [rline r, rline r + rcount r - 1, aline a, aline a + acount a - 1])"

definition drawable :: "Change list \<Rightarrow> bool" where
  "drawable cs = list_all (\<lambda>c. list_all (\<lambda>l. 0 \<le> l) (positionLines c)) cs"

text \<open>
  \<^verbatim>\<open>drawChanges(editor, fileChange, index, count)\<close>. With an index and a count, the loop over
  \<^verbatim>\<open>i = index + 1 .. length - 1\<close> renumbers, then \<^verbatim>\<open>splice(index, 1)\<close> removes the record;
  the change list is updated in place. Then the decorations of the remaining records are
  built, which throws if a \<^verbatim>\<open>Position\<close> gets a negative line: the result is the updated
  \<open>fileChange\<close> together with that error, if any. What is drawn is not part of the state.
\<close>

definition drawChanges :: "FileChange \<Rightarrow> (nat \<times> int) option \<Rightarrow> FileChange \<times> Error option" where
  "drawChanges fileChange indexCount =
     (let cs = changes fileChange;
          cs' = (case indexCount of
                   None \<Rightarrow> cs
                 | Some (index, n) \<Rightarrow>
                     (let shifted = take (Suc index) cs @ map (shiftLines n) (drop (Suc index) cs)
                      in take index shifted @ drop (Suc index) shifted))
      in (fileChange\<lparr>changes := cs'\<rparr>,
          if drawable cs' then None else Some IllegalArgument))"

section \<open>Finding the change under the cursor (getChangeIndex, lines 327-352)\<close>

definition lineInChange :: "int \<Rightarrow> Change \<Rightarrow> bool" where
  "lineInChange ln change =
     (case change of
        Removed r \<Rightarrow> ln \<ge> rline r \<and> ln < rline r + rcount r
      | Added a \<Rightarrow> ln \<ge> aline a \<and> ln < aline a + acount a
      | Modified r a \<Rightarrow> ln \<ge> rline r \<and> ln < rline r + rcount r + acount a)"

fun getChangeIndexFrom :: "int \<Rightarrow> int \<Rightarrow> Change list \<Rightarrow> int" where
  "getChangeIndexFrom i ln [] = - 1"
| "getChangeIndexFrom i ln (change # rest) =
     (if lineInChange ln change then i else getChangeIndexFrom (i + 1) ln rest)"

definition getChangeIndex :: "int \<Rightarrow> FileChange \<Rightarrow> int" where
  "getChangeIndex ln fileChange = getChangeIndexFrom 0 ln (changes fileChange)"

section \<open>Resolving one change (acceptChange, rejectChange, lines 354-497)\<close>

text \<open>
  The range, replacement text and count chosen for a record; \<open>None\<close> when a \<^verbatim>\<open>Position\<close>
  constructor throws. For the side that needs no edit the range stays unassigned.
\<close>

definition acceptEdit :: "Change \<Rightarrow> (Range option \<times> string \<times> int) option" where
  "acceptEdit change =
     (case change of
        Removed r \<Rightarrow>
          (case newRange (rline r) (rline r + rcount r) of
             None \<Rightarrow> None
           | Some rg \<Rightarrow> Some (Some rg, [], rcount r))
      | Added a \<Rightarrow> Some (None, [], 0)
      | Modified r a \<Rightarrow>
          (case newRange (rline r) (aline a + acount a) of
             None \<Rightarrow> None
           | Some rg \<Rightarrow> Some (Some rg, avalue a, rcount r)))"

definition rejectEdit :: "Change \<Rightarrow> (Range option \<times> string \<times> int) option" where
  "rejectEdit change =
     (case change of
        Removed r \<Rightarrow> Some (None, [], 0)
      | Added a \<Rightarrow>
          (case newRange (aline a) (aline a + acount a) of
             None \<Rightarrow> None
           | Some rg \<Rightarrow> Some (Some rg, [], acount a))
      | Modified r a \<Rightarrow>
          (case newRange (rline r) (aline a + acount a) of
             None \<Rightarrow> None
           | Some rg \<Rightarrow> Some (Some rg, rvalue r, acount a)))"

text \<open>
  Lines 377-422 of \<^verbatim>\<open>acceptChange\<close>, once \<open>index\<close> is a position of the array. The change
  list held by the store is the object that \<^verbatim>\<open>drawChanges\<close> updates, so the store shows
  the renumbered list also when the redrawing throws.
\<close>

definition acceptChangeAt :: "Uri \<Rightarrow> FileChange \<Rightarrow> nat \<Rightarrow> EditReply \<Rightarrow> State \<Rightarrow> Outcome" where
  "acceptChangeAt uri fileChange index reply s =
     (case acceptEdit (changes fileChange ! index) of
        None \<Rightarrow> Thrown IllegalArgument s
      | Some (rng, v, n) \<Rightarrow>
          (case (if n \<noteq> 0 then editorEdit reply uri rng v s else Done s) of
             Thrown e s1 \<Rightarrow> Thrown e s1
           | Done s1 \<Rightarrow>
               (let fileChange' = fst (drawChanges fileChange (Some (index, n)));
                    s2 = s1\<lparr>fileChangeMap := (fileChangeMap s1)(uri \<mapsto> fileChange')\<rparr>
                in case snd (drawChanges fileChange (Some (index, n))) of
                     Some e \<Rightarrow> Thrown e s2
                   | None \<Rightarrow>
                       if changes fileChange' = []
                       then Done (saveDocument uri
                              (s2\<lparr>hasChanges := False,
                                  fileChangeMap := (fileChangeMap s2)(uri := None),
                                  fired := fired s2 @ [(AcceptEvent, fsPath uri)]\<rparr>))
                       else Done s2)))"

text \<open>
  \<^verbatim>\<open>acceptChange(uri, i)\<close>. An explicit \<open>i\<close> is used as it is; \<^verbatim>\<open>changes[index]\<close> outside the
  array is \<^verbatim>\<open>undefined\<close>, and reading its \<^verbatim>\<open>type\<close> throws a \<^verbatim>\<open>TypeError\<close>.
\<close>

definition acceptChange :: "Uri \<Rightarrow> int option \<Rightarrow> EditReply \<Rightarrow> State \<Rightarrow> Outcome" where
  "acceptChange uri i reply s =
     (if activeTextEditor s \<noteq> Some uri then Done s
      else case fileChangeMap s uri of
        None \<Rightarrow> Done s
      | Some fileChange \<Rightarrow>
          (let index = (case i of Some n \<Rightarrow> n | None \<Rightarrow> getChangeIndex (selectionLine s) fileChange)
           in if i = None \<and> index = - 1 then Done s
              else if index < 0 \<or> int (length (changes fileChange)) \<le> index
                   then Thrown TypeError s
                   else acceptChangeAt uri fileChange (nat index) reply s))"

text \<open>Lines 448-497 of \<^verbatim>\<open>rejectChange\<close>.\<close>

definition rejectChangeAt :: "Uri \<Rightarrow> FileChange \<Rightarrow> nat \<Rightarrow> EditReply \<Rightarrow> State \<Rightarrow> Outcome" where
  "rejectChangeAt uri fileChange index reply s =
     (case rejectEdit (changes fileChange ! index) of
        None \<Rightarrow> Thrown IllegalArgument s
      | Some (rng, v, n) \<Rightarrow>
          (case (if n \<noteq> 0 then editorEdit reply uri rng v s else Done s) of
             Thrown e s1 \<Rightarrow> Thrown e s1
           | Done s1 \<Rightarrow>
               (let fileChange' = fst (drawChanges fileChange (Some (index, n)));
                    s2 = s1\<lparr>fileChangeMap := (fileChangeMap s1)(uri \<mapsto> fileChange')\<rparr>
                in case snd (drawChanges fileChange (Some (index, n))) of
                     Some e \<Rightarrow> Thrown e s2
                   | None \<Rightarrow>
                       if changes fileChange' = []
                       then (let s3 = s2\<lparr>hasChanges := False,
                                         fileChangeMap := (fileChangeMap s2)(uri := None),
                                         fired := fired s2 @ [(RejectEvent, fsPath uri)]\<rparr>
                             in if scheme uri = ''file''
                                then Done (saveDocument uri s3)
                                else Done (closeActiveEditor s3))
                       else Done s2)))"

definition rejectChange :: "Uri \<Rightarrow> int option \<Rightarrow> EditReply \<Rightarrow> State \<Rightarrow> Outcome" where
  "rejectChange uri i reply s =
     (if activeTextEditor s \<noteq> Some uri then Done s
      else case fileChangeMap s uri of
        None \<Rightarrow> Done s
      | Some fileChange \<Rightarrow>
          (let index = (case i of Some n \<Rightarrow> n | None \<Rightarrow> getChangeIndex (selectionLine s) fileChange)
           in if i = None \<and> index = - 1 then Done s
              else if index < 0 \<or> int (length (changes fileChange)) \<le> index
                   then Thrown TypeError s
                   else rejectChangeAt uri fileChange (nat index) reply s))"

section \<open>Resolving all changes (acceptAllChanges, rejectAllChanges)\<close>

text \<open>
  The deletions collected by the loops \<^verbatim>\<open>for (let i = length - 1; i >= 0; i--)\<close>; the
  argument is the change list from its last record to its first. \<open>None\<close> when a \<^verbatim>\<open>Range\<close>
  constructor throws.
\<close>

fun acceptAllEdits :: "Change list \<Rightarrow> (Range \<times> string) list option" where
  "acceptAllEdits [] = Some []"
| "acceptAllEdits (Added a # rest) = acceptAllEdits rest"
| "acceptAllEdits (Removed r # rest) =
     (case newRange (rline r) (rline r + rcount r) of
        None \<Rightarrow> None
      | Some rg \<Rightarrow> map_option (\<lambda>es. (rg, []) # es) (acceptAllEdits rest))"
| "acceptAllEdits (Modified r a # rest) =
     (case newRange (rline r) (rline r + rcount r) of
        None \<Rightarrow> None
      | Some rg \<Rightarrow> map_option (\<lambda>es. (rg, []) # es) (acceptAllEdits rest))"

fun rejectAllEdits :: "Change list \<Rightarrow> (Range \<times> string) list option" where
  "rejectAllEdits [] = Some []"
| "rejectAllEdits (Added a # rest) =
     (case newRange (aline a) (aline a + acount a) of
        None \<Rightarrow> None
      | Some rg \<Rightarrow> map_option (\<lambda>es. (rg, []) # es) (rejectAllEdits rest))"
| "rejectAllEdits (Removed r # rest) = rejectAllEdits rest"
| "rejectAllEdits (Modified r a # rest) =
     (case newRange (aline a) (aline a + acount a) of
        None \<Rightarrow> None
      | Some rg \<Rightarrow> map_option (\<lambda>es. (rg, []) # es) (rejectAllEdits rest))"

definition acceptAllChanges :: "Uri \<Rightarrow> EditReply \<Rightarrow> State \<Rightarrow> Outcome" where
  "acceptAllChanges uri reply s =
     (case fileChangeMap s uri of
        None \<Rightarrow> Done s
      | Some fileChange \<Rightarrow>
          (let s0 = showTextDocument uri s
           in case acceptAllEdits (rev (changes fileChange)) of
                None \<Rightarrow> Thrown IllegalArgument s0
              | Some edits \<Rightarrow>
                  (case hostEdit reply uri edits s0 of
                     Thrown e s1 \<Rightarrow> Thrown e s1
                   | Done s1 \<Rightarrow>
                       Done (saveDocument uri
                         (s1\<lparr>fileChangeMap := (fileChangeMap s1)(uri := None),
                             fired := fired s1 @ [(AcceptEvent, fsPath uri)],
                             hasChanges := False\<rparr>)))))"

definition rejectAllChanges :: "Uri \<Rightarrow> EditReply \<Rightarrow> State \<Rightarrow> Outcome" where
  "rejectAllChanges uri reply s =
     (case fileChangeMap s uri of
        None \<Rightarrow> Done s
      | Some fileChange \<Rightarrow>
          (let s0 = showTextDocument uri s
           in case rejectAllEdits (rev (changes fileChange)) of
                None \<Rightarrow> Thrown IllegalArgument s0
              | Some edits \<Rightarrow>
                  (case hostEdit reply uri edits s0 of
                     Thrown e s1 \<Rightarrow> Thrown e s1
                   | Done s1 \<Rightarrow>
                       (let s2 = s1\<lparr>fileChangeMap := (fileChangeMap s1)(uri := None),
                                    fired := fired s1 @ [(RejectEvent, fsPath uri)],
                                    hasChanges := False\<rparr>
                        in if scheme uri = ''file''
                           then Done (saveDocument uri s2)
                           else Done (closeActiveEditor s2)))))"

section \<open>Applying a diff (openDiffView, lines 568-677)\<close>

text \<open>
  \<open>differences\<close> is the array that \<^verbatim>\<open>diffLines(currentContent, modifiedContent)\<close> returned;
  the library is not part of the repository, so its result is an argument.
\<close>

text \<open>The \<^verbatim>\<open>Uri\<close> chosen at lines 570-576: a file that does not exist yet is \<^verbatim>\<open>untitled\<close>.\<close>

definition targetUri :: "State \<Rightarrow> string \<Rightarrow> Uri" where
  "targetUri s path = (if fsStat s path then Uri ''file'' path else Uri ''untitled'' path)"

definition openDiffView :: "string \<Rightarrow> string \<Rightarrow> Part list \<Rightarrow> EditReply \<Rightarrow> State \<Rightarrow> Outcome" where
  "openDiffView path content differences reply s =
     (let uri = targetUri s path;
          s0 = showTextDocument uri s;
          modified = replaceEol (lineEol (documents s0 uri)) content;
          currentContent = getText (documents s0 uri);
          loop = diffLoop differences loopStart
      in case newRange 0 (lineCount currentContent) of
           None \<Rightarrow> Thrown IllegalArgument s0
         | Some rng \<Rightarrow>
             (case hostEdit reply uri [(rng, combineContent loop)] s0 of
                Thrown e s1 \<Rightarrow> Thrown e s1
              | Done s1 \<Rightarrow>
                  (let fileChange = \<lparr>originalContent = currentContent,
                                     modifiedContent = modified,
                                     changes = emitted loop\<rparr>;
                       s2 = s1\<lparr>fileChangeMap := (fileChangeMap s1)(uri \<mapsto> fileChange),
                               fired := fired s1 @ [(AddEvent, fsPath uri)],
                               hasChanges := True\<rparr>
                   in case snd (drawChanges fileChange None) of
                        Some e \<Rightarrow> Thrown e s2
                      | None \<Rightarrow> Done s2)))"

section \<open>The contract of the line differ and the ordering invariant\<close>

text \<open>
  The number of lines a segment spans: one per line terminator, and one more for a last
  line without terminator.
\<close>

definition countLines :: "string \<Rightarrow> int" where
  "countLines v =
     int (length (filter (\<lambda>c. c = LF) v)) + (if v \<noteq> [] \<and> last v \<noteq> LF then 1 else 0)"

text \<open>
  What the builder relies on from \<^verbatim>\<open>diffLines(original, modified)\<close>: the segments that are
  not added spell the original text, those that are not removed spell the modified text,
  every count is the number of lines of the segment's text, no segment is both added and
  removed, added and removed segments are not empty, and runs are maximal.
\<close>

definition differContract :: "string \<Rightarrow> string \<Rightarrow> Part list \<Rightarrow> bool" where
  "differContract original modified ds \<longleftrightarrow>
     concat (map part_value (filter (\<lambda>p. \<not> part_added p) ds)) = original
   \<and> concat (map part_value (filter (\<lambda>p. \<not> part_removed p) ds)) = modified
   \<and> list_all (\<lambda>p. part_count p = countLines (part_value p)) ds
   \<and> list_all (\<lambda>p. \<not> (part_added p \<and> part_removed p)) ds
   \<and> list_all (\<lambda>p. part_added p \<or> part_removed p \<longrightarrow> part_value p \<noteq> []) ds
   \<and> noAdjacentRemoved ds"

text \<open>
  The primary coordinate of a record, the end of its span (the span of a \<open>Modified\<close> runs
  over its removed block and its added block), and the shape of a single record: counts
  are positive and the added block of a \<open>Modified\<close> starts where its removed block ends.
\<close>

fun primaryLine :: "Change \<Rightarrow> int" where
  "primaryLine (Removed r) = rline r"
| "primaryLine (Added a) = aline a"
| "primaryLine (Modified r a) = rline r"

fun spanEnd :: "Change \<Rightarrow> int" where
  "spanEnd (Removed r) = rline r + rcount r"
| "spanEnd (Added a) = aline a + acount a"
| "spanEnd (Modified r a) = rline r + rcount r + acount a"

fun recordOk :: "Change \<Rightarrow> bool" where
  "recordOk (Removed r) = (0 < rcount r)"
| "recordOk (Added a) = (0 < acount a)"
| "recordOk (Modified r a) = (0 < rcount r \<and> 0 < acount a \<and> aline a = rline r + rcount r)"

definition changesInv :: "Change list \<Rightarrow> bool" where
  "changesInv cs \<longleftrightarrow>
     sorted_wrt (\<lambda>c d. primaryLine c < primaryLine d \<and> spanEnd c \<le> primaryLine d) cs
   \<and> list_all recordOk cs"

text \<open>The change list of a document after a call: empty when the store has no entry.\<close>

definition remaining :: "State \<Rightarrow> Uri \<Rightarrow> Change list" where
  "remaining s uri = (case fileChangeMap s uri of None \<Rightarrow> [] | Some fc \<Rightarrow> changes fc)"

text \<open>Reading an outcome: whether the call threw, and the state it left.\<close>

fun threw :: "Outcome \<Rightarrow> bool" where
  "threw (Done s) = False"
| "threw (Thrown e s) = True"

fun stateOf :: "Outcome \<Rightarrow> State" where
  "stateOf (Done s) = s"
| "stateOf (Thrown e s) = s"

text \<open>One call after another: the second runs only if the first returned.\<close>

definition andThen :: "Outcome \<Rightarrow> (State \<Rightarrow> Outcome) \<Rightarrow> Outcome" where
  "andThen out f = (case out of Done s \<Rightarrow> f s | Thrown e s \<Rightarrow> Thrown e s)"

text \<open>
  The two ways a resolution that empties the change list ends. Saved: the document is
  not dirty afterwards and its editor is still open; a save request was sent unless the
  document was clean all along. Closed: the active editor was closed and no save
  request was sent.
\<close>

definition savedByCall :: "State \<Rightarrow> State \<Rightarrow> Uri \<Rightarrow> bool" where
  "savedByCall s s' uri \<longleftrightarrow>
     \<not> isDirty (documents s' uri) \<and> activeTextEditor s' = Some uri
   \<and> (hostCalls s' = hostCalls s @ [Save uri]
      \<or> (hostCalls s' = hostCalls s \<and> \<not> isDirty (documents s uri)))"

definition closedByCall :: "State \<Rightarrow> State \<Rightarrow> bool" where
  "closedByCall s s' \<longleftrightarrow>
     activeTextEditor s' = None \<and> hostCalls s' = hostCalls s @ [CloseActiveEditor]"



section \<open>Texts made of whole lines\<close>

text \<open>
  Notions used to state when the bulk operations restore a text: a text is complete when
  it is empty or ends with a line terminator; a segment is terminated when its text is not
  empty and ends with one. The spans that a bulk operation deletes are written twice: as
  the line ranges read off the change list, and as character intervals read off the
  segments.
\<close>

definition complete :: "string \<Rightarrow> bool" where
  "complete a \<longleftrightarrow> a = [] \<or> last a = LF"

definition terminated :: "Part \<Rightarrow> bool" where
  "terminated p \<longleftrightarrow> part_value p \<noteq> [] \<and> last (part_value p) = LF"

text \<open>The count of a segment is its number of lines, and it is not both added and removed.\<close>

definition partOk :: "Part \<Rightarrow> bool" where
  "partOk p \<longleftrightarrow> part_count p = countLines (part_value p)
     \<and> \<not> (part_added p \<and> part_removed p)"

text \<open>Every segment but the last is terminated, and no two removed segments are adjacent.\<close>

fun partsWf :: "Part list \<Rightarrow> bool" where
  "partsWf [] = True"
| "partsWf [p] = partOk p"
| "partsWf (p # q # ps) =
     (partOk p \<and> terminated p \<and> \<not> (part_removed p \<and> part_removed q) \<and> partsWf (q # ps))"

text \<open>The range \<^verbatim>\<open>Range(line, 0, line + count, 0)\<close> for a non-negative line and count.\<close>

definition rangeOf :: "int \<Rightarrow> int \<Rightarrow> Range" where
  "rangeOf l c = Range (nat l) (nat (l + c))"

text \<open>
  The deletion that \<^verbatim>\<open>acceptAllChanges\<close> (\<open>acc\<close> true) or \<^verbatim>\<open>rejectAllChanges\<close> (\<open>acc\<close> false)
  collects for one record.
\<close>

fun spans :: "bool \<Rightarrow> Change \<Rightarrow> (Range \<times> string) list" where
  "spans acc (Removed r) = (if acc then [(rangeOf (rline r) (rcount r), [])] else [])"
| "spans acc (Added a) = (if acc then [] else [(rangeOf (aline a) (acount a), [])])"
| "spans acc (Modified r a) =
     (if acc then [(rangeOf (rline r) (rcount r), [])]
      else [(rangeOf (aline a) (acount a), [])])"

text \<open>The segments whose text a bulk accept, or a bulk reject, is meant to remove.\<close>

definition dropped :: "bool \<Rightarrow> Part \<Rightarrow> bool" where
  "dropped acc p = (if acc then kind p = RemovedSeg else kind p = AddedSeg)"

text \<open>The character intervals of the selected segments in the combined buffer, from offset \<open>off\<close>.\<close>

fun deletedSpans :: "(Part \<Rightarrow> bool) \<Rightarrow> nat \<Rightarrow> Part list \<Rightarrow> (nat \<times> nat \<times> string) list" where
  "deletedSpans sel off [] = []"
| "deletedSpans sel off (p # ps) =
     (if sel p then [(off, off + length (part_value p), [])] else [])
     @ deletedSpans sel (off + length (part_value p)) ps"

section \<open>Example states\<close>

definition demoUri :: Uri where
  "demoUri = Uri ''file'' ''/w/a.txt''"

definition otherUri :: Uri where
  "otherUri = Uri ''file'' ''/w/b.txt''"

definition demoText :: string where
  "demoText = ''a\<newline>b\<newline>c\<newline>d\<newline>e\<newline>f\<newline>g\<newline>h\<newline>i\<newline>j\<newline>k\<newline>l\<newline>m\<newline>n\<newline>o\<newline>p\<newline>q\<newline>r\<newline>''"

definition demoChanges :: "Change list" where
  "demoChanges =
     [Removed (RemovedChange 2 3 ''c\<newline>d\<newline>e\<newline>''),
      Added (AddedChange 8 1 ''i\<newline>''),
      Modified (RemovedChange 15 1 ''p\<newline>'') (AddedChange 16 1 ''q\<newline>'')]"

definition demoState :: "Uri \<Rightarrow> Change list \<Rightarrow> Uri option \<Rightarrow> State" where
  "demoState uri cs active =
     \<lparr>fileChangeMap = [uri \<mapsto> \<lparr>originalContent = [], modifiedContent = [], changes = cs\<rparr>],
      documents = (\<lambda>u. \<lparr>getText = demoText, isDirty = True, eolCRLF = False\<rparr>),
      activeTextEditor = active,
      selectionLine = 0,
      hasChanges = True,
      fired = [],
      hostCalls = [],
      fsStat = (\<lambda>p. True)\<rparr>"

text \<open>A state with no changeset, every document holding the given text.\<close>

definition idleState :: "string \<Rightarrow> State" where
  "idleState t =
     \<lparr>fileChangeMap = Map.empty,
      documents = (\<lambda>u. \<lparr>getText = t, isDirty = False, eolCRLF = False\<rparr>),
      activeTextEditor = None,
      selectionLine = 0,
      hasChanges = False,
      fired = [],
      hostCalls = [],
      fsStat = (\<lambda>p. True)\<rparr>"

definition newUri :: Uri where
  "newUri = Uri ''untitled'' ''/w/new.txt''"

section \<open>Properties of the builder\<close>

lemma mergeSpec_added:
  "kind p = AddedSeg \<Longrightarrow> mergeSpec n (p # ps) = Added (asAdded n p) # mergeSpec (n + part_count p) ps"
  by (cases ps) simp_all

lemma mergeSpec_unchanged:
  "kind p = Unchanged \<Longrightarrow> mergeSpec n (p # ps) = mergeSpec (n + part_count p) ps"
  by (cases ps) simp_all

lemma diffLoop_emitted:
  assumes "noAdjacentRemoved ds"
    and "lastRemoved st = None \<or> ds = [] \<or> \<not> part_removed (hd ds)"
  shows "emitted (diffLoop ds st) =
           emitted st @ (case lastRemoved st of
                           None \<Rightarrow> mergeSpec (lineNumber st) ds
                         | Some lr \<Rightarrow> pendingSpec lr (lineNumber st) ds)"
  using assms
proof (induction ds arbitrary: st)
  case Nil
  then show ?case by (simp split: option.splits)
next
  case (Cons p ps)
  let ?st' = "loopBody p (ps = []) st"
  have adj: "noAdjacentRemoved ps"
    using Cons.prems(1) by (cases ps) simp_all
  show ?case
  proof (cases "part_removed p")
    case True
    then have none: "lastRemoved st = None"
      using Cons.prems(2) by simp
    show ?thesis
    proof (cases ps)
      case Nil
      then show ?thesis
        using True none by (simp add: loopBody_def Let_def kind_def asRemoved_def)
    next
      case (Cons q qs)
      then have nq: "\<not> part_removed q"
        using True Cons.prems(1) by simp
      have pend: "lastRemoved ?st' = Some (asRemoved (lineNumber st) p)"
        using True Cons by (simp add: loopBody_def Let_def asRemoved_def)
      have ih: "emitted (diffLoop ps ?st') =
                  emitted ?st' @ pendingSpec (asRemoved (lineNumber st) p) (lineNumber ?st') ps"
        using Cons.IH [of ?st'] adj nq Cons pend by simp
      have em: "emitted ?st' = emitted st" and ln: "lineNumber ?st' = lineNumber st + part_count p"
        using True Cons by (simp_all add: loopBody_def Let_def)
      have "kind q \<noteq> AddedSeg \<Longrightarrow> kind q = Unchanged"
        using nq by (simp add: kind_def split: if_splits)
      then show ?thesis
        using True none Cons ih em ln
        by (auto simp: kind_def mergeSpec_unchanged add.assoc)
    qed
  next
    case False
    have nopend: "lastRemoved ?st' = None"
      using False by (simp add: loopBody_def Let_def split: option.splits)
    have ih: "emitted (diffLoop ps ?st') = emitted ?st' @ mergeSpec (lineNumber ?st') ps"
      using Cons.IH [of ?st'] adj nopend by simp
    have ln: "lineNumber ?st' = lineNumber st + part_count p"
      using False by (simp add: loopBody_def Let_def split: option.splits)
    show ?thesis
    proof (cases "part_added p")
      case True
      then have k: "kind p = AddedSeg"
        using False by (simp add: kind_def)
      show ?thesis
        using False True ih ln k
        by (simp add: loopBody_def Let_def asAdded_def mergeSpec_added split: option.splits)
    next
      case unch: False
      then have k: "kind p = Unchanged"
        using False by (simp add: kind_def)
      show ?thesis
        using False unch ih ln k
        by (simp add: loopBody_def Let_def mergeSpec_unchanged split: option.splits)
    qed
  qed
qed

lemma diffLoop_lineNumber:
  "lineNumber (diffLoop ds st) = lineNumber st + sum_list (map part_count ds)"
  by (induction ds arbitrary: st)
     (simp_all add: loopBody_def Let_def split: option.splits)

lemma diffLoop_combineContent:
  "combineContent (diffLoop ds st) = combineContent st @ concat (map part_value ds)"
  by (induction ds arbitrary: st)
     (simp_all add: loopBody_def Let_def split: option.splits)

section \<open>Properties of the host and of the resolution steps\<close>

lemma drawChanges_changes:
  "changes (fst (drawChanges fc (Some (k, n))))
     = take k (changes fc) @ map (shiftLines n) (drop (Suc k) (changes fc))"
  by (simp add: drawChanges_def Let_def min_def)

lemma drawChanges_fst:
  "fst (drawChanges fc (Some (k, n)))
     = fc\<lparr>changes := take k (changes fc) @ map (shiftLines n) (drop (Suc k) (changes fc))\<rparr>"
  by (simp add: drawChanges_def Let_def min_def)

lemma drawChanges_None: "fst (drawChanges fc None) = fc"
  by (simp add: drawChanges_def Let_def)

lemma drawChanges_snd:
  "snd (drawChanges fc ic)
     = (if drawable (changes (fst (drawChanges fc ic))) then None else Some IllegalArgument)"
  by (simp add: drawChanges_def Let_def)

lemma drawChanges_single:
  "length (changes fc) = 1 \<Longrightarrow> changes (fst (drawChanges fc (Some (0, n)))) = []"
  by (simp add: drawChanges_changes)

lemma drawable_Nil: "drawable []"
  by (simp add: drawable_def)

lemma drawable_wf:
  assumes "\<forall>c\<in>set cs. 0 \<le> primaryLine c \<and> recordOk c"
  shows "drawable cs"
  unfolding drawable_def list_all_iff
proof
  fix c
  assume "c \<in> set cs"
  then have "0 \<le> primaryLine c" "recordOk c"
    using assms by auto
  then show "\<forall>l\<in>set (positionLines c). 0 \<le> l"
    by (cases c) (auto simp: positionLines_def)
qed

lemma explicit_index_out_of_bounds:
  assumes "activeTextEditor s = Some uri" and "fileChangeMap s uri = Some fc"
    and "k < 0 \<or> int (length (changes fc)) \<le> k"
  shows "acceptChange uri (Some k) reply s = Thrown TypeError s"
    and "rejectChange uri (Some k) reply s = Thrown TypeError s"
  using assms by (auto simp: acceptChange_def rejectChange_def)

lemma inferred_index_no_match:
  assumes "getChangeIndex (selectionLine s) fc = - 1" and "fileChangeMap s uri = Some fc"
  shows "acceptChange uri None reply s = Done s"
    and "rejectChange uri None reply s = Done s"
  using assms by (auto simp: acceptChange_def rejectChange_def)

lemma hostEdit_Done:
  assumes "hostEdit reply uri edits s = Done s1"
  shows "fileChangeMap s1 = fileChangeMap s" "activeTextEditor s1 = activeTextEditor s"
    "hostCalls s1 = hostCalls s" "fired s1 = fired s" "hasChanges s1 = hasChanges s"
    "isDirty (documents s uri) \<Longrightarrow> isDirty (documents s1 uri)"
  using assms by (auto simp: hostEdit_def split: EditReply.splits if_splits)

lemma hostEdit_Thrown:
  "hostEdit reply uri edits s = Thrown e s1 \<Longrightarrow> s1 = s \<and> e = EditFailed \<and> reply = Failed"
  by (auto simp: hostEdit_def split: EditReply.splits if_splits)

lemma editorEdit_Done:
  assumes "editorEdit reply uri rng v s = Done s1"
  shows "fileChangeMap s1 = fileChangeMap s" "activeTextEditor s1 = activeTextEditor s"
    "hostCalls s1 = hostCalls s" "fired s1 = fired s" "hasChanges s1 = hasChanges s"
    "isDirty (documents s uri) \<Longrightarrow> isDirty (documents s1 uri)"
  using assms hostEdit_Done [of reply uri "[(the rng, v)]" s s1]
  by (auto simp: editorEdit_def split: option.splits)

lemma editorEdit_Thrown:
  "editorEdit reply uri rng v s = Thrown e s1 \<Longrightarrow> s1 = s"
  by (auto simp: editorEdit_def split: option.splits dest: hostEdit_Thrown)

lemma saveDocument_fields [simp]:
  "fileChangeMap (saveDocument uri s) = fileChangeMap s"
  "activeTextEditor (saveDocument uri s) = activeTextEditor s"
  "fired (saveDocument uri s) = fired s"
  "hasChanges (saveDocument uri s) = hasChanges s"
  "\<not> isDirty (documents (saveDocument uri s) uri)"
  by (simp_all add: saveDocument_def)

lemma saveDocument_hostCalls:
  "hostCalls (saveDocument uri s) = (if isDirty (documents s uri) then hostCalls s @ [Save uri] else hostCalls s)"
  by (simp add: saveDocument_def)

lemma acceptChangeAt_last:
  assumes "length (changes fc) = 1" and "acceptChangeAt uri fc 0 reply s = Done s'"
  shows "fileChangeMap s' uri = None"
    and "\<not> isDirty (documents s' uri)"
    and "activeTextEditor s' = activeTextEditor s"
    and "hostCalls s' = hostCalls s @ [Save uri] \<or> (hostCalls s' = hostCalls s \<and> \<not> isDirty (documents s uri))"
  using assms
  by (auto simp: acceptChangeAt_def drawChanges_single drawChanges_snd drawable_Nil Let_def
             saveDocument_hostCalls
           split: option.splits prod.splits Outcome.splits if_splits
           dest: editorEdit_Done)

lemma rejectChangeAt_last:
  assumes "length (changes fc) = 1" and "rejectChangeAt uri fc 0 reply s = Done s'"
  shows "fileChangeMap s' uri = None"
    and "scheme uri = ''file'' \<Longrightarrow> \<not> isDirty (documents s' uri)"
    and "scheme uri = ''file'' \<Longrightarrow> activeTextEditor s' = activeTextEditor s"
    and "scheme uri = ''file'' \<Longrightarrow>
           hostCalls s' = hostCalls s @ [Save uri] \<or> (hostCalls s' = hostCalls s \<and> \<not> isDirty (documents s uri))"
    and "scheme uri \<noteq> ''file'' \<Longrightarrow> activeTextEditor s' = None"
    and "scheme uri \<noteq> ''file'' \<Longrightarrow> hostCalls s' = hostCalls s @ [CloseActiveEditor]"
  using assms
  by (auto simp: rejectChangeAt_def drawChanges_single drawChanges_snd drawable_Nil Let_def
             saveDocument_hostCalls closeActiveEditor_def
           split: option.splits prod.splits Outcome.splits if_splits
           dest: editorEdit_Done)

lemma acceptChange_at:
  assumes "activeTextEditor s = Some uri" and "fileChangeMap s uri = Some fc"
    and "i = Some k \<or> (i = None \<and> getChangeIndex (selectionLine s) fc = k)"
    and "0 \<le> k" and "k < int (length (changes fc))"
  shows "acceptChange uri i reply s = acceptChangeAt uri fc (nat k) reply s"
  using assms by (auto simp: acceptChange_def Let_def)

lemma rejectChange_at:
  assumes "activeTextEditor s = Some uri" and "fileChangeMap s uri = Some fc"
    and "i = Some k \<or> (i = None \<and> getChangeIndex (selectionLine s) fc = k)"
    and "0 \<le> k" and "k < int (length (changes fc))"
  shows "rejectChange uri i reply s = rejectChangeAt uri fc (nat k) reply s"
  using assms by (auto simp: rejectChange_def Let_def)


lemma acceptChangeAt_returns:
  assumes "recordOk (changes fc ! k)" and "0 \<le> primaryLine (changes fc ! k)" and "reply \<noteq> Failed"
    and "\<And>n. drawable (changes (fst (drawChanges fc (Some (k, n)))))"
  shows "\<not> threw (acceptChangeAt uri fc k reply s)"
  using assms
  by (cases "changes fc ! k"; cases reply)
     (auto simp: acceptChangeAt_def acceptEdit_def newRange_def editorEdit_def hostEdit_def Let_def
        drawChanges_snd)

lemma rejectChangeAt_returns:
  assumes "recordOk (changes fc ! k)" and "0 \<le> primaryLine (changes fc ! k)" and "reply \<noteq> Failed"
    and "\<And>n. drawable (changes (fst (drawChanges fc (Some (k, n)))))"
  shows "\<not> threw (rejectChangeAt uri fc k reply s)"
  using assms
  by (cases "changes fc ! k"; cases reply)
     (auto simp: rejectChangeAt_def rejectEdit_def newRange_def editorEdit_def hostEdit_def Let_def
        drawChanges_snd)

lemma acceptChangeAt_last_returns:
  assumes "length (changes fc) = 1" and "recordOk (changes fc ! 0)"
    and "0 \<le> primaryLine (changes fc ! 0)" and "reply \<noteq> Failed"
  shows "\<not> threw (acceptChangeAt uri fc 0 reply s)"
  by (rule acceptChangeAt_returns [OF assms(2-4)])
     (simp add: drawChanges_single [OF assms(1)] drawable_Nil)

lemma rejectChangeAt_last_returns:
  assumes "length (changes fc) = 1" and "recordOk (changes fc ! 0)"
    and "0 \<le> primaryLine (changes fc ! 0)" and "reply \<noteq> Failed"
  shows "\<not> threw (rejectChangeAt uri fc 0 reply s)"
  by (rule rejectChangeAt_returns [OF assms(2-4)])
     (simp add: drawChanges_single [OF assms(1)] drawable_Nil)

text \<open>
  A throw of a single resolution leaves the state as it was, except a throw of the
  redrawing: by then the store holds the renumbered list.
\<close>

lemma acceptChangeAt_Thrown:
  assumes "acceptChangeAt uri fc k reply s = Thrown e s1"
  shows "s1 = s \<or> (e = IllegalArgument
           \<and> (\<exists>n. fileChangeMap s1 uri = Some (fst (drawChanges fc (Some (k, n))))
                \<and> acceptEdit (changes fc ! k) \<noteq> None
                \<and> n = (case changes fc ! k of
                         Removed r \<Rightarrow> rcount r | Added a \<Rightarrow> 0 | Modified r a \<Rightarrow> rcount r)))"
  using assms
  by (cases "changes fc ! k")
     (auto simp: acceptChangeAt_def acceptEdit_def Let_def drawChanges_snd
           split: option.splits Outcome.splits if_splits
           dest: editorEdit_Thrown)

lemma rejectChangeAt_Thrown:
  assumes "rejectChangeAt uri fc k reply s = Thrown e s1"
  shows "s1 = s \<or> (e = IllegalArgument
           \<and> (\<exists>n. fileChangeMap s1 uri = Some (fst (drawChanges fc (Some (k, n))))
                \<and> rejectEdit (changes fc ! k) \<noteq> None
                \<and> n = (case changes fc ! k of
                         Removed r \<Rightarrow> 0 | Added a \<Rightarrow> acount a | Modified r a \<Rightarrow> acount a)))"
  using assms
  by (cases "changes fc ! k")
     (auto simp: rejectChangeAt_def rejectEdit_def Let_def drawChanges_snd
           split: option.splits Outcome.splits if_splits
           dest: editorEdit_Thrown)

text \<open>
  On a change list that is not ordered the redrawing can throw: accepting the removal of
  lines 0 to 2 renumbers the addition recorded at line 1 to line -2, the \<^verbatim>\<open>Position\<close> of its
  decoration cannot be built, and the call throws with the store already renumbered.
\<close>

lemma redraw_throws_example:
  "acceptChange demoUri (Some 0) Refused
     (demoState demoUri [Removed (RemovedChange 0 3 ''a\<newline>b\<newline>c\<newline>''),
                         Added (AddedChange 1 1 ''b\<newline>'')] (Some demoUri))
   = Thrown IllegalArgument
      (demoState demoUri [Added (AddedChange (- 2) 1 ''b\<newline>'')] (Some demoUri))"
  "threw (acceptChange demoUri (Some 0) Applied
     (demoState demoUri [Removed (RemovedChange 0 3 ''a\<newline>b\<newline>c\<newline>''),
                         Added (AddedChange 1 1 ''b\<newline>'')] (Some demoUri)))"
  "remaining (stateOf (acceptChange demoUri (Some 0) Applied
     (demoState demoUri [Removed (RemovedChange 0 3 ''a\<newline>b\<newline>c\<newline>''),
                         Added (AddedChange 1 1 ''b\<newline>'')] (Some demoUri)))) demoUri
   = [Added (AddedChange (- 2) 1 ''b\<newline>'')]"
  by (simp_all add: acceptChange_def acceptChangeAt_def acceptEdit_def newRange_def editorEdit_def
        hostEdit_def drawChanges_def drawable_def positionLines_def shiftLines_def demoState_def
        remaining_def Let_def)

lemma acceptChangeAt_EditFailed:
  assumes "acceptChangeAt uri fc k reply s = Thrown EditFailed s1"
  shows "s1 = s \<and> reply = Failed"
  using assms
  by (auto simp: acceptChangeAt_def Let_def drawChanges_snd editorEdit_def
           split: option.splits Outcome.splits if_splits prod.splits
           dest: hostEdit_Thrown)

lemma rejectChangeAt_EditFailed:
  assumes "rejectChangeAt uri fc k reply s = Thrown EditFailed s1"
  shows "s1 = s \<and> reply = Failed"
  using assms
  by (auto simp: rejectChangeAt_def Let_def drawChanges_snd editorEdit_def
           split: option.splits Outcome.splits if_splits prod.splits
           dest: hostEdit_Thrown)

lemma diffLoop_unchanged:
  assumes "list_all (\<lambda>p. \<not> part_added p \<and> \<not> part_removed p) ds" and "lastRemoved st = None"
  shows "emitted (diffLoop ds st) = emitted st"
  using assms
  by (induction ds arbitrary: st) (simp_all add: loopBody_def Let_def)

lemma lineCount_pos: "0 < lineCount txt"
  by (simp add: lineCount_def)


lemma acceptAllChanges_Done:
  assumes "fileChangeMap s uri = Some fc" and "acceptAllChanges uri reply s = Done s'"
  shows "savedByCall s s' uri" and "fileChangeMap s' uri = None"
proof -
  let ?s0 = "showTextDocument uri s"
  obtain edits s1 where e: "hostEdit reply uri edits ?s0 = Done s1"
    and s': "s' = saveDocument uri
               (s1\<lparr>fileChangeMap := (fileChangeMap s1)(uri := None),
                   fired := fired s1 @ [(AcceptEvent, fsPath uri)],
                   hasChanges := False\<rparr>)"
    using assms
    by (auto simp: acceptAllChanges_def Let_def split: option.splits Outcome.splits)
  note f = hostEdit_Done [OF e]
  show "savedByCall s s' uri"
    using f(2,3,6) by (auto simp: s' savedByCall_def saveDocument_hostCalls showTextDocument_def)
  show "fileChangeMap s' uri = None"
    by (simp add: s')
qed

lemma rejectAllChanges_Done:
  assumes "fileChangeMap s uri = Some fc" and "rejectAllChanges uri reply s = Done s'"
  shows "if scheme uri = ''file'' then savedByCall s s' uri else closedByCall s s'"
    and "fileChangeMap s' uri = None"
proof -
  let ?s0 = "showTextDocument uri s"
  obtain edits s1 where e: "hostEdit reply uri edits ?s0 = Done s1"
    and s': "s' = (let s2 = s1\<lparr>fileChangeMap := (fileChangeMap s1)(uri := None),
                                fired := fired s1 @ [(RejectEvent, fsPath uri)],
                                hasChanges := False\<rparr>
                   in if scheme uri = ''file'' then saveDocument uri s2 else closeActiveEditor s2)"
    using assms
    by (auto simp: rejectAllChanges_def Let_def split: option.splits Outcome.splits if_splits)
  note f = hostEdit_Done [OF e]
  show "if scheme uri = ''file'' then savedByCall s s' uri else closedByCall s s'"
    using f(2,3,6)
    by (auto simp: s' savedByCall_def closedByCall_def saveDocument_hostCalls
          showTextDocument_def closeActiveEditor_def Let_def)
  show "fileChangeMap s' uri = None"
    by (simp add: s' closeActiveEditor_def Let_def)
qed


lemma shiftLines_simps [simp]:
  "primaryLine (shiftLines n c) = primaryLine c - n"
  "spanEnd (shiftLines n c) = spanEnd c - n"
  "recordOk (shiftLines n c) = recordOk c"
  by (cases c; simp add: shiftLines_def)+

lemma changesInv_Cons:
  "changesInv (c # cs) \<longleftrightarrow>
     (\<forall>d\<in>set cs. primaryLine c < primaryLine d \<and> spanEnd c \<le> primaryLine d)
     \<and> recordOk c \<and> changesInv cs"
  by (auto simp: changesInv_def)

lemma changesInv_around:
  assumes "changesInv cs" and "k < length cs"
  shows "\<forall>c\<in>set (take k cs). primaryLine c < primaryLine (cs ! k) \<and> spanEnd c \<le> primaryLine (cs ! k)"
    and "\<forall>d\<in>set (drop (Suc k) cs). primaryLine (cs ! k) < primaryLine d \<and> spanEnd (cs ! k) \<le> primaryLine d"
    and "\<forall>c\<in>set (take k cs). \<forall>d\<in>set (drop (Suc k) cs). primaryLine c < primaryLine d \<and> spanEnd c \<le> primaryLine d"
    and "recordOk (cs ! k)"
proof -
  have split: "cs = take k cs @ cs ! k # drop (Suc k) cs"
    using assms(2) by (simp add: id_take_nth_drop)
  have "sorted_wrt (\<lambda>c d. primaryLine c < primaryLine d \<and> spanEnd c \<le> primaryLine d)
          (take k cs @ cs ! k # drop (Suc k) cs)"
    using assms(1) split by (simp add: changesInv_def)
  then show
    "\<forall>c\<in>set (take k cs). primaryLine c < primaryLine (cs ! k) \<and> spanEnd c \<le> primaryLine (cs ! k)"
    "\<forall>d\<in>set (drop (Suc k) cs). primaryLine (cs ! k) < primaryLine d \<and> spanEnd (cs ! k) \<le> primaryLine d"
    "\<forall>c\<in>set (take k cs). \<forall>d\<in>set (drop (Suc k) cs). primaryLine c < primaryLine d \<and> spanEnd c \<le> primaryLine d"
    by (auto simp: sorted_wrt_append)
  show "recordOk (cs ! k)"
    using assms by (simp add: changesInv_def list_all_length)
qed

lemma changesInv_resolved:
  assumes inv: "changesInv cs" and k: "k < length cs"
    and n: "0 \<le> n" "n \<le> spanEnd (cs ! k) - primaryLine (cs ! k)"
  shows "changesInv (take k cs @ map (shiftLines n) (drop (Suc k) cs))"
proof -
  let ?P = "\<lambda>c d. primaryLine c < primaryLine d \<and> spanEnd c \<le> primaryLine d"
  have s: "sorted_wrt ?P cs" and ok: "list_all recordOk cs"
    using inv by (simp_all add: changesInv_def)
  have 1: "sorted_wrt ?P (take k cs)"
    using s by (rule sorted_wrt_take)
  have "sorted_wrt ?P (drop (Suc k) cs)"
    using s by (rule sorted_wrt_drop)
  then have 2: "sorted_wrt ?P (map (shiftLines n) (drop (Suc k) cs))"
    by (simp add: sorted_wrt_map)
  have 3: "\<forall>c\<in>set (take k cs). \<forall>d\<in>set (map (shiftLines n) (drop (Suc k) cs)). ?P c d"
  proof (intro ballI)
    fix c d
    assume c: "c \<in> set (take k cs)" and d: "d \<in> set (map (shiftLines n) (drop (Suc k) cs))"
    then obtain d0 where d0: "d0 \<in> set (drop (Suc k) cs)" and dd: "d = shiftLines n d0"
      by auto
    have "primaryLine c < primaryLine (cs ! k)" "spanEnd c \<le> primaryLine (cs ! k)"
      using changesInv_around(1) [OF inv k] c by auto
    moreover have "spanEnd (cs ! k) \<le> primaryLine d0"
      using changesInv_around(2) [OF inv k] d0 by auto
    ultimately show "?P c d"
      using n by (simp add: dd)
  qed
  have 4: "list_all recordOk (take k cs @ map (shiftLines n) (drop (Suc k) cs))"
    using ok by (auto simp: list_all_iff dest: in_set_takeD in_set_dropD)
  show ?thesis
    using 1 2 3 4 by (simp add: changesInv_def sorted_wrt_append)
qed

lemma acceptChangeAt_remaining:
  assumes "acceptChangeAt uri fc k reply s = Done s'"
  shows "remaining s' uri =
           changes (fst (drawChanges fc (Some (k,
             (case changes fc ! k of Removed r \<Rightarrow> rcount r | Added a \<Rightarrow> 0 | Modified r a \<Rightarrow> rcount r)))))"
  using assms
  by (cases "changes fc ! k")
     (auto simp: acceptChangeAt_def acceptEdit_def remaining_def Let_def drawChanges_snd
           split: option.splits Outcome.splits if_splits dest: editorEdit_Done(1))

lemma rejectChangeAt_remaining:
  assumes "rejectChangeAt uri fc k reply s = Done s'"
  shows "remaining s' uri =
           changes (fst (drawChanges fc (Some (k,
             (case changes fc ! k of Removed r \<Rightarrow> 0 | Added a \<Rightarrow> acount a | Modified r a \<Rightarrow> acount a)))))"
  using assms
  by (cases "changes fc ! k")
     (auto simp: rejectChangeAt_def rejectEdit_def remaining_def Let_def closeActiveEditor_def
             drawChanges_snd
           split: option.splits Outcome.splits if_splits dest: editorEdit_Done(1))



lemma not_threw_Done: "\<not> threw out \<Longrightarrow> out = Done (stateOf out)"
  by (cases out) simp_all

lemma resolve_count_bounds:
  assumes "recordOk c"
  shows "0 \<le> (case c of Removed r \<Rightarrow> rcount r | Added a \<Rightarrow> 0 | Modified r a \<Rightarrow> rcount r)"
    and "(case c of Removed r \<Rightarrow> rcount r | Added a \<Rightarrow> 0 | Modified r a \<Rightarrow> rcount r)
          \<le> spanEnd c - primaryLine c"
    and "0 \<le> (case c of Removed r \<Rightarrow> 0 | Added a \<Rightarrow> acount a | Modified r a \<Rightarrow> acount a)"
    and "(case c of Removed r \<Rightarrow> 0 | Added a \<Rightarrow> acount a | Modified r a \<Rightarrow> acount a)
          \<le> spanEnd c - primaryLine c"
  using assms by (cases c; simp)+

lemma acceptChangeAt_inv:
  assumes "changesInv (changes fc)" and "k < length (changes fc)" and "fileChangeMap s uri = Some fc"
  shows "changesInv (remaining (stateOf (acceptChangeAt uri fc k reply s)) uri)"
proof (cases "acceptChangeAt uri fc k reply s")
  case (Done s')
  have ok: "recordOk (changes fc ! k)"
    by (rule changesInv_around(4) [OF assms(1,2)])
  show ?thesis
    using acceptChangeAt_remaining [OF Done] Done
      changesInv_resolved [OF assms(1,2) resolve_count_bounds(1,2) [OF ok]]
    by (simp add: drawChanges_changes)
next
  case (Thrown e s1)
  have ok: "recordOk (changes fc ! k)"
    by (rule changesInv_around(4) [OF assms(1,2)])
  from acceptChangeAt_Thrown [OF Thrown] show ?thesis
  proof
    assume "s1 = s"
    then show ?thesis
      using Thrown assms by (simp add: remaining_def)
  next
    assume "e = IllegalArgument
           \<and> (\<exists>n. fileChangeMap s1 uri = Some (fst (drawChanges fc (Some (k, n))))
                \<and> acceptEdit (changes fc ! k) \<noteq> None
                \<and> n = (case changes fc ! k of
                         Removed r \<Rightarrow> rcount r | Added a \<Rightarrow> 0 | Modified r a \<Rightarrow> rcount r))"
    then show ?thesis
      using Thrown changesInv_resolved [OF assms(1,2) resolve_count_bounds(1,2) [OF ok]]
      by (auto simp: remaining_def drawChanges_changes)
  qed
qed

lemma rejectChangeAt_inv:
  assumes "changesInv (changes fc)" and "k < length (changes fc)" and "fileChangeMap s uri = Some fc"
  shows "changesInv (remaining (stateOf (rejectChangeAt uri fc k reply s)) uri)"
proof (cases "rejectChangeAt uri fc k reply s")
  case (Done s')
  have ok: "recordOk (changes fc ! k)"
    by (rule changesInv_around(4) [OF assms(1,2)])
  show ?thesis
    using rejectChangeAt_remaining [OF Done] Done
      changesInv_resolved [OF assms(1,2) resolve_count_bounds(3,4) [OF ok]]
    by (simp add: drawChanges_changes)
next
  case (Thrown e s1)
  have ok: "recordOk (changes fc ! k)"
    by (rule changesInv_around(4) [OF assms(1,2)])
  from rejectChangeAt_Thrown [OF Thrown] show ?thesis
  proof
    assume "s1 = s"
    then show ?thesis
      using Thrown assms by (simp add: remaining_def)
  next
    assume "e = IllegalArgument
           \<and> (\<exists>n. fileChangeMap s1 uri = Some (fst (drawChanges fc (Some (k, n))))
                \<and> rejectEdit (changes fc ! k) \<noteq> None
                \<and> n = (case changes fc ! k of
                         Removed r \<Rightarrow> 0 | Added a \<Rightarrow> acount a | Modified r a \<Rightarrow> acount a))"
    then show ?thesis
      using Thrown changesInv_resolved [OF assms(1,2) resolve_count_bounds(3,4) [OF ok]]
      by (auto simp: remaining_def drawChanges_changes)
  qed
qed

lemma acceptChange_cases:
  assumes "fileChangeMap s uri = Some fc"
  shows "acceptChange uri i reply s = Done s
       \<or> acceptChange uri i reply s = Thrown TypeError s
       \<or> (\<exists>k<length (changes fc). acceptChange uri i reply s = acceptChangeAt uri fc k reply s)"
proof -
  define index where "index = (case i of Some n \<Rightarrow> n | None \<Rightarrow> getChangeIndex (selectionLine s) fc)"
  have unfold: "acceptChange uri i reply s =
     (if activeTextEditor s \<noteq> Some uri then Done s
      else if i = None \<and> index = - 1 then Done s
      else if index < 0 \<or> int (length (changes fc)) \<le> index then Thrown TypeError s
      else acceptChangeAt uri fc (nat index) reply s)"
    by (cases i) (simp_all add: acceptChange_def assms Let_def index_def)
  show ?thesis
  proof (cases "index < 0 \<or> int (length (changes fc)) \<le> index")
    case True
    then show ?thesis by (simp add: unfold)
  next
    case False
    then have "nat index < length (changes fc)" by linarith
    then show ?thesis using False unfold by auto
  qed
qed

lemma rejectChange_cases:
  assumes "fileChangeMap s uri = Some fc"
  shows "rejectChange uri i reply s = Done s
       \<or> rejectChange uri i reply s = Thrown TypeError s
       \<or> (\<exists>k<length (changes fc). rejectChange uri i reply s = rejectChangeAt uri fc k reply s)"
proof -
  define index where "index = (case i of Some n \<Rightarrow> n | None \<Rightarrow> getChangeIndex (selectionLine s) fc)"
  have unfold: "rejectChange uri i reply s =
     (if activeTextEditor s \<noteq> Some uri then Done s
      else if i = None \<and> index = - 1 then Done s
      else if index < 0 \<or> int (length (changes fc)) \<le> index then Thrown TypeError s
      else rejectChangeAt uri fc (nat index) reply s)"
    by (cases i) (simp_all add: rejectChange_def assms Let_def index_def)
  show ?thesis
  proof (cases "index < 0 \<or> int (length (changes fc)) \<le> index")
    case True
    then show ?thesis by (simp add: unfold)
  next
    case False
    then have "nat index < length (changes fc)" by linarith
    then show ?thesis using False unfold by auto
  qed
qed

lemma acceptChange_inv:
  assumes "changesInv (remaining s uri)"
  shows "changesInv (remaining (stateOf (acceptChange uri i reply s)) uri)"
proof (cases "fileChangeMap s uri")
  case None
  then show ?thesis using assms by (simp add: acceptChange_def)
next
  case (Some fc)
  then have inv: "changesInv (changes fc)"
    using assms by (simp add: remaining_def)
  from acceptChange_cases [OF Some, of i reply]
  show ?thesis
  proof (elim disjE exE conjE)
    fix k
    assume "k < length (changes fc)"
      and "acceptChange uri i reply s = acceptChangeAt uri fc k reply s"
    then show ?thesis
      using acceptChangeAt_inv [OF inv _ Some, of k reply] by simp
  qed (use assms in simp_all)
qed

lemma rejectChange_inv:
  assumes "changesInv (remaining s uri)"
  shows "changesInv (remaining (stateOf (rejectChange uri i reply s)) uri)"
proof (cases "fileChangeMap s uri")
  case None
  then show ?thesis using assms by (simp add: rejectChange_def)
next
  case (Some fc)
  then have inv: "changesInv (changes fc)"
    using assms by (simp add: remaining_def)
  from rejectChange_cases [OF Some, of i reply]
  show ?thesis
  proof (elim disjE exE conjE)
    fix k
    assume "k < length (changes fc)"
      and "rejectChange uri i reply s = rejectChangeAt uri fc k reply s"
    then show ?thesis
      using rejectChangeAt_inv [OF inv _ Some, of k reply] by simp
  qed (use assms in simp_all)
qed

lemma countLines_nonneg: "0 \<le> countLines v"
  by (simp add: countLines_def)

lemma countLines_pos:
  assumes "v \<noteq> []"
  shows "0 < countLines v"
proof (cases "last v = LF")
  case True
  then have "LF \<in> set v"
    using assms last_in_set [of v] by simp
  then have "filter (\<lambda>c. c = LF) v \<noteq> []"
    by (simp add: filter_empty_conv)
  then show ?thesis
    by (simp add: countLines_def)
next
  case False
  then show ?thesis
    using assms by (simp add: countLines_def)
qed

lemma differContract_counts:
  assumes "differContract original modified ds"
  shows "list_all (\<lambda>p. if part_removed p \<or> part_added p then 0 < part_count p else 0 \<le> part_count p) ds"
proof -
  have c: "list_all (\<lambda>p. part_count p = countLines (part_value p)) ds"
    and n: "list_all (\<lambda>p. part_added p \<or> part_removed p \<longrightarrow> part_value p \<noteq> []) ds"
    using assms unfolding differContract_def by blast+
  show ?thesis
    unfolding list_all_iff
  proof
    fix p
    assume p: "p \<in> set ds"
    then have "part_count p = countLines (part_value p)"
      using c by (simp add: list_all_iff)
    moreover have "part_added p \<or> part_removed p \<Longrightarrow> part_value p \<noteq> []"
      using n p by (auto simp: list_all_iff)
    ultimately show "if part_removed p \<or> part_added p then 0 < part_count p else 0 \<le> part_count p"
      using countLines_nonneg [of "part_value p"] countLines_pos [of "part_value p"] by auto
  qed
qed

lemma changesInv_push:
  assumes "changesInv cs" and "\<forall>d\<in>set cs. m \<le> primaryLine d"
    and "recordOk c" and "primaryLine c < m" and "spanEnd c \<le> m"
  shows "changesInv (c # cs)"
  unfolding changesInv_Cons using assms by fastforce

lemma mergeSpec_inv:
  assumes "list_all (\<lambda>p. if part_removed p \<or> part_added p then 0 < part_count p else 0 \<le> part_count p) ds"
  shows "changesInv (mergeSpec n ds) \<and> (\<forall>c\<in>set (mergeSpec n ds). n \<le> primaryLine c)"
  using assms
proof (induction n ds rule: mergeSpec.induct)
  case (1 n)
  then show ?case by (simp add: changesInv_def)
next
  case (2 n p)
  then show ?case
    by (cases "kind p") (auto simp: changesInv_def kind_def asRemoved_def asAdded_def split: if_splits)
next
  case (3 n p q ps)
  have okq: "list_all (\<lambda>p. if part_removed p \<or> part_added p then 0 < part_count p else 0 \<le> part_count p) (q # ps)"
    and okps: "list_all (\<lambda>p. if part_removed p \<or> part_added p then 0 < part_count p else 0 \<le> part_count p) ps"
    using "3.prems" by simp_all
  show ?case
  proof (cases "kind p")
    case Unchanged
    then have cp: "0 \<le> part_count p"
      using "3.prems" by (simp add: kind_def split: if_splits)
    have ih: "changesInv (mergeSpec (n + part_count p) (q # ps))"
      "\<forall>c\<in>set (mergeSpec (n + part_count p) (q # ps)). n + part_count p \<le> primaryLine c"
      using "3.IH" Unchanged okq by simp_all
    have "\<forall>c\<in>set (mergeSpec (n + part_count p) (q # ps)). n \<le> primaryLine c"
      using ih(2) cp by fastforce
    then show ?thesis
      using ih(1) Unchanged by simp
  next
    case AddedSeg
    then have cp: "0 < part_count p"
      using "3.prems" by (simp add: kind_def split: if_splits)
    have ih: "changesInv (mergeSpec (n + part_count p) (q # ps))"
      "\<forall>c\<in>set (mergeSpec (n + part_count p) (q # ps)). n + part_count p \<le> primaryLine c"
      using "3.IH" AddedSeg okq by simp_all
    have inv: "changesInv (Added (asAdded n p) # mergeSpec (n + part_count p) (q # ps))"
      by (rule changesInv_push [OF ih]) (use cp in \<open>simp_all add: asAdded_def\<close>)
    have "\<forall>c\<in>set (mergeSpec (n + part_count p) (q # ps)). n \<le> primaryLine c"
      using ih(2) cp by fastforce
    then show ?thesis
      using inv AddedSeg by (simp add: asAdded_def)
  next
    case RemovedSeg
    then have cp: "0 < part_count p"
      using "3.prems" by (simp add: kind_def split: if_splits)
    show ?thesis
    proof (cases "kind q = AddedSeg")
      case True
      then have cq: "0 < part_count q"
        using "3.prems" by (simp add: kind_def split: if_splits)
      have ih: "changesInv (mergeSpec (n + part_count p + part_count q) ps)"
        "\<forall>c\<in>set (mergeSpec (n + part_count p + part_count q) ps). n + part_count p + part_count q \<le> primaryLine c"
        using "3.IH" RemovedSeg True okps by simp_all
      have inv: "changesInv (Modified (asRemoved n p) (asAdded (n + part_count p) q)
                   # mergeSpec (n + part_count p + part_count q) ps)"
        by (rule changesInv_push [OF ih]) (use cp cq in \<open>simp_all add: asAdded_def asRemoved_def\<close>)
      have "\<forall>c\<in>set (mergeSpec (n + part_count p + part_count q) ps). n \<le> primaryLine c"
        using ih(2) cp cq by fastforce
      then show ?thesis
        using inv RemovedSeg True by (simp add: asRemoved_def)
    next
      case False
      have ih: "changesInv (mergeSpec (n + part_count p) (q # ps))"
        "\<forall>c\<in>set (mergeSpec (n + part_count p) (q # ps)). n + part_count p \<le> primaryLine c"
        using "3.IH" RemovedSeg False okq by simp_all
      have inv: "changesInv (Removed (asRemoved n p) # mergeSpec (n + part_count p) (q # ps))"
        by (rule changesInv_push [OF ih]) (use cp in \<open>simp_all add: asRemoved_def\<close>)
      have "\<forall>c\<in>set (mergeSpec (n + part_count p) (q # ps)). n \<le> primaryLine c"
        using ih(2) cp by fastforce
      then show ?thesis
        using inv RemovedSeg False by (simp add: asRemoved_def)
    qed
  qed
qed

lemma buildChanges_inv:
  assumes "differContract original modified ds"
  shows "changesInv (buildChanges ds)"
proof -
  have "noAdjacentRemoved ds"
    using assms by (simp add: differContract_def)
  then have "buildChanges ds = mergeSpec 0 ds"
    using diffLoop_emitted [of ds loopStart] by (simp add: buildChanges_def loopStart_def)
  then show ?thesis
    using mergeSpec_inv [OF differContract_counts [OF assms], of 0] by simp
qed

lemma openDiffView_Done:
  assumes "openDiffView path content ds reply s = Done s'"
  shows "remaining s' (targetUri s path) = buildChanges ds"
  using assms
  by (auto simp: openDiffView_def Let_def remaining_def buildChanges_def
           split: option.splits Outcome.splits)

lemma demoChanges_inv: "changesInv demoChanges"
  by (simp add: changesInv_def demoChanges_def)










lemma lineOffset_numeral [simp]:
  "lineOffset (numeral k) (c # cs) = Suc (lineOffset (if c = LF then pred_numeral k else numeral k) cs)"
  "lineOffset (numeral k) [] = 0"
  by (simp_all add: numeral_eq_Suc)

lemma lineOffset_One [simp]:
  "lineOffset (Suc 0) (c # cs) = Suc (lineOffset (if c = LF then 0 else Suc 0) cs)"
  by simp

section \<open>Bulk resolution on texts made of whole lines\<close>

lemma lineOffset_complete_prefix:
  assumes "complete a"
  shows "lineOffset (length (filter (\<lambda>c. c = LF) a)) (a @ b) = length a"
  using assms
proof (induction a)
  case Nil
  then show ?case by simp
next
  case (Cons c a)
  show ?case
  proof (cases "a = []")
    case True
    then have "c = LF" using Cons.prems by (simp add: complete_def)
    then show ?thesis using True by simp
  next
    case False
    then have ca: "complete a" using Cons.prems by (simp add: complete_def)
    then have "LF \<in> set a" using False last_in_set [of a] by (auto simp: complete_def)
    then have "filter (\<lambda>c. c = LF) a \<noteq> []" by (simp add: filter_empty_conv)
    then obtain m where m: "length (filter (\<lambda>c. c = LF) a) = Suc m"
      by (cases "filter (\<lambda>c. c = LF) a") auto
    show ?thesis
      using Cons.IH [OF ca] m by simp
  qed
qed

lemma lineOffset_past_end:
  "length (filter (\<lambda>c. c = LF) t) < n \<Longrightarrow> lineOffset n t = length t"
proof (induction t arbitrary: n)
  case Nil
  then show ?case by (cases n) simp_all
next
  case (Cons c t)
  then obtain m where n: "n = Suc m" by (cases n) auto
  show ?case
    using Cons.IH [of m] Cons.IH [of "Suc m"] Cons.prems by (auto simp: n split: if_splits)
qed

lemma countLines_complete:
  "complete v \<Longrightarrow> countLines v = int (length (filter (\<lambda>c. c = LF) v))"
  by (auto simp: countLines_def complete_def)

lemma countLines_incomplete:
  "\<not> complete v \<Longrightarrow> countLines v = int (length (filter (\<lambda>c. c = LF) v)) + 1"
  by (auto simp: countLines_def complete_def)

lemma span_offsets:
  assumes "complete pre" and "complete v \<or> post = []"
  shows "lineOffset (length (filter (\<lambda>c. c = LF) pre)) (pre @ v @ post) = length pre"
    and "lineOffset (length (filter (\<lambda>c. c = LF) pre) + nat (countLines v)) (pre @ v @ post)
           = length pre + length v"
proof -
  show "lineOffset (length (filter (\<lambda>c. c = LF) pre)) (pre @ v @ post) = length pre"
    by (rule lineOffset_complete_prefix [OF assms(1)])
  show "lineOffset (length (filter (\<lambda>c. c = LF) pre) + nat (countLines v)) (pre @ v @ post)
           = length pre + length v"
  proof (cases "complete v")
    case True
    then have c: "complete (pre @ v)"
      using assms(1) by (cases "v = []") (auto simp: complete_def)
    show ?thesis
      using lineOffset_complete_prefix [OF c, of post] by (simp add: countLines_complete [OF True])
  next
    case False
    then have "post = []" using assms(2) by simp
    then show ?thesis
      using lineOffset_past_end [of "pre @ v" "length (filter (\<lambda>c. c = LF) pre) + nat (countLines v)"]
      by (simp add: countLines_incomplete [OF False])
  qed
qed

lemma delete_spans:
  "foldl (\<lambda>t (a, b, v). take a t @ v @ drop b t) (pre @ concat (map part_value ds))
     (rev (deletedSpans sel (length pre) ds))
   = pre @ concat (map part_value (filter (\<lambda>p. \<not> sel p) ds))"
proof (induction ds arbitrary: pre)
  case Nil
  then show ?case by simp
next
  case (Cons p ps)
  have ih: "foldl (\<lambda>t (a, b, v). take a t @ v @ drop b t)
              (pre @ part_value p @ concat (map part_value ps))
              (rev (deletedSpans sel (length pre + length (part_value p)) ps))
            = pre @ part_value p @ concat (map part_value (filter (\<lambda>p. \<not> sel p) ps))"
    using Cons.IH [of "pre @ part_value p"] by simp
  show ?case
    by (simp add: ih)
qed

lemma toOff_rangeOf:
  assumes "complete pre" and "complete (part_value p) \<or> post = []" and "partOk p"
    and "n = int (length (filter (\<lambda>c. c = LF) pre))"
    and "txt = pre @ part_value p @ post"
  shows "lineOffset (startLine (rangeOf n (part_count p))) txt = length pre"
    and "lineOffset (endLine (rangeOf n (part_count p))) txt = length pre + length (part_value p)"
proof -
  have c: "part_count p = countLines (part_value p)"
    using assms(3) by (simp add: partOk_def)
  have nn: "0 \<le> countLines (part_value p)"
    by (simp add: countLines_def)
  have e: "nat (n + part_count p)
           = length (filter (\<lambda>c. c = LF) pre) + nat (countLines (part_value p))"
    using nn by (simp add: assms(4) c nat_add_distrib)
  show "lineOffset (startLine (rangeOf n (part_count p))) txt = length pre"
    using span_offsets(1) [OF assms(1,2)] by (simp add: rangeOf_def assms(4,5))
  show "lineOffset (endLine (rangeOf n (part_count p))) txt = length pre + length (part_value p)"
    using span_offsets(2) [OF assms(1,2)] by (simp add: rangeOf_def e assms(5))
qed

lemma complete_append: "complete a \<Longrightarrow> terminated p \<Longrightarrow> complete (a @ part_value p)"
  by (simp add: complete_def terminated_def)

lemma terminated_complete: "terminated p \<Longrightarrow> complete (part_value p)"
  by (simp add: complete_def terminated_def)

lemma terminated_count:
  "terminated p \<Longrightarrow> partOk p \<Longrightarrow>
     int (length (filter (\<lambda>c. c = LF) (a @ part_value p)))
       = int (length (filter (\<lambda>c. c = LF) a)) + part_count p"
  by (simp add: partOk_def countLines_complete [OF terminated_complete])

lemma partsWf_tail: "partsWf (p # ps) \<Longrightarrow> partsWf ps"
  by (cases ps) simp_all

lemma partsWf_head: "partsWf (p # ps) \<Longrightarrow> partOk p"
  by (cases ps) simp_all

lemma partsWf_terminated: "partsWf (p # ps) \<Longrightarrow> ps \<noteq> [] \<Longrightarrow> terminated p"
  by (cases ps) simp_all

lemma mergeSpec_removed:
  "kind p = RemovedSeg \<Longrightarrow> mergeSpec n (p # ps) =
     (case ps of
        [] \<Rightarrow> [Removed (asRemoved n p)]
      | q # qs \<Rightarrow>
          if kind q = AddedSeg
          then Modified (asRemoved n p) (asAdded (n + part_count p) q)
                 # mergeSpec (n + part_count p + part_count q) qs
          else Removed (asRemoved n p) # mergeSpec (n + part_count p) ps)"
  by (cases ps) simp_all

lemma dropped_kind:
  "kind p = Unchanged \<Longrightarrow> \<not> dropped acc p"
  "kind p = AddedSeg \<Longrightarrow> dropped acc p = (\<not> acc)"
  "kind p = RemovedSeg \<Longrightarrow> dropped acc p = acc"
  by (simp_all add: dropped_def)

lemma mergeSpec_spans:
  assumes "partsWf ds" and "txt = pre @ concat (map part_value ds)" and "complete pre"
    and "n = int (length (filter (\<lambda>c. c = LF) pre))"
  shows "map (\<lambda>(rg, v). (lineOffset (startLine rg) txt, lineOffset (endLine rg) txt, v))
           (concat (map (spans acc) (mergeSpec n ds)))
         = deletedSpans (dropped acc) (length pre) ds"
  using assms
proof (induction ds arbitrary: pre n rule: length_induct)
  case (1 ds)
  show ?case
  proof (cases ds)
    case Nil
    then show ?thesis by simp
  next
    case (Cons p ps)
    let ?vp = "part_value p"
    have okp: "partOk p" using "1.prems"(1) Cons partsWf_head by blast
    have wfps: "partsWf ps" using "1.prems"(1) Cons partsWf_tail by blast
    have last_or: "complete ?vp \<or> concat (map part_value ps) = []"
    proof (cases "ps = []")
      case True then show ?thesis by simp
    next
      case False
      then show ?thesis
        using partsWf_terminated [of p ps] "1.prems"(1) Cons terminated_complete by blast
    qed
    have tx: "txt = pre @ ?vp @ concat (map part_value ps)"
      using "1.prems"(2) Cons by simp
    note off = toOff_rangeOf [OF "1.prems"(3) last_or okp "1.prems"(4) tx]
    \<comment> \<open>the tail, when it is not empty, starts at a complete prefix\<close>
    have tail: "map (\<lambda>(rg, v). (lineOffset (startLine rg) txt, lineOffset (endLine rg) txt, v))
                  (concat (map (spans acc) (mergeSpec (n + part_count p) ps)))
                = deletedSpans (dropped acc) (length pre + length ?vp) ps"
    proof (cases "ps = []")
      case True
      then show ?thesis by simp
    next
      case False
      then have t: "terminated p"
        using partsWf_terminated [of p ps] "1.prems"(1) Cons by blast
      have "map (\<lambda>(rg, v). (lineOffset (startLine rg) txt, lineOffset (endLine rg) txt, v))
                  (concat (map (spans acc) (mergeSpec (n + part_count p) ps)))
                = deletedSpans (dropped acc) (length (pre @ ?vp)) ps"
        using "1.IH" [rule_format, of ps "pre @ ?vp" "n + part_count p"] Cons wfps tx
          complete_append [OF "1.prems"(3) t] terminated_count [OF t okp, of pre] "1.prems"(4)
        by simp
      then show ?thesis by simp
    qed
    show ?thesis
    proof (cases "kind p")
      case Unchanged
      then show ?thesis
        using tail Cons by (simp add: mergeSpec_unchanged dropped_kind)
    next
      case AddedSeg
      then show ?thesis
        using tail Cons off
        by (simp add: mergeSpec_added dropped_kind asAdded_def)
    next
      case RemovedSeg
      show ?thesis
      proof (cases ps)
        case Nil
        then show ?thesis
          using RemovedSeg Cons off \<open>ds = p # ps\<close>
          by (simp add: dropped_kind asRemoved_def)
      next
        case (Cons q qs)
        note ps = Cons
        let ?vq = "part_value q"
        have t: "terminated p"
          using partsWf_terminated [of p ps] "1.prems"(1) \<open>ds = p # ps\<close> ps by blast
        show ?thesis
        proof (cases "kind q = AddedSeg")
          case False
          then show ?thesis
            using tail RemovedSeg \<open>ds = p # ps\<close> ps off
            by (simp add: dropped_kind asRemoved_def)
        next
          case True
          have okq: "partOk q" using wfps ps partsWf_head by blast
          have wfqs: "partsWf qs" using wfps ps partsWf_tail by blast
          have cpre: "complete (pre @ ?vp)"
            by (rule complete_append [OF "1.prems"(3) t])
          have npre: "n + part_count p = int (length (filter (\<lambda>c. c = LF) (pre @ ?vp)))"
            using terminated_count [OF t okp, of pre] "1.prems"(4) by simp
          have last_q: "complete ?vq \<or> concat (map part_value qs) = []"
          proof (cases "qs = []")
            case True then show ?thesis by simp
          next
            case False
            then show ?thesis
              using partsWf_terminated [of q qs] wfps ps terminated_complete by blast
          qed
          have txq: "txt = (pre @ ?vp) @ ?vq @ concat (map part_value qs)"
            using tx ps by simp
          note offq = toOff_rangeOf [OF cpre last_q okq npre txq]
          have tailq: "map (\<lambda>(rg, v). (lineOffset (startLine rg) txt, lineOffset (endLine rg) txt, v))
                  (concat (map (spans acc) (mergeSpec (n + part_count p + part_count q) qs)))
                = deletedSpans (dropped acc) (length pre + length ?vp + length ?vq) qs"
          proof (cases "qs = []")
            case True
            then show ?thesis by simp
          next
            case False
            then have tq: "terminated q"
              using partsWf_terminated [of q qs] wfps ps by blast
            have "map (\<lambda>(rg, v). (lineOffset (startLine rg) txt, lineOffset (endLine rg) txt, v))
                  (concat (map (spans acc) (mergeSpec (n + part_count p + part_count q) qs)))
                = deletedSpans (dropped acc) (length ((pre @ ?vp) @ ?vq)) qs"
              using "1.IH" [rule_format, of qs "(pre @ ?vp) @ ?vq" "n + part_count p + part_count q"]
                \<open>ds = p # ps\<close> ps wfqs txq complete_append [OF cpre tq]
                terminated_count [OF tq okq, of "pre @ ?vp"] npre
              by simp
            then show ?thesis by (simp add: add.assoc)
          qed
          show ?thesis
            using tailq RemovedSeg True \<open>ds = p # ps\<close> ps off offq
            by (simp add: dropped_kind asRemoved_def asAdded_def add.assoc)
        qed
      qed
    qed
  qed
qed

lemma newRange_rangeOf:
  "0 \<le> l \<Longrightarrow> 0 \<le> c \<Longrightarrow> newRange l (l + c) = Some (rangeOf l c)"
  by (simp add: newRange_def rangeOf_def min_def max_def)

lemma acceptAllEdits_spans:
  assumes "\<forall>c\<in>set cs. 0 \<le> primaryLine c \<and> recordOk c"
  shows "acceptAllEdits cs = Some (concat (map (spans True) cs))"
  using assms
proof (induction cs)
  case Nil
  then show ?case by simp
next
  case (Cons c cs)
  then show ?case
    by (cases c) (simp_all add: newRange_rangeOf)
qed

lemma rejectAllEdits_spans:
  assumes "\<forall>c\<in>set cs. 0 \<le> primaryLine c \<and> recordOk c"
  shows "rejectAllEdits cs = Some (concat (map (spans False) cs))"
  using assms
proof (induction cs)
  case Nil
  then show ?case by simp
next
  case (Cons c cs)
  then show ?case
    by (cases c) (simp_all add: newRange_rangeOf)
qed

lemma spans_rev: "concat (map (spans acc) (rev cs)) = rev (concat (map (spans acc) cs))"
proof (induction cs)
  case Nil
  then show ?case by simp
next
  case (Cons c cs)
  have "rev (spans acc c) = spans acc c"
    by (cases c) simp_all
  then show ?case
    using Cons by simp
qed

lemma normalizeEol_LF:
  "CR \<notin> set v \<Longrightarrow> normalizeEol [LF] v = v"
  by (induction "[LF]" v rule: normalizeEol.induct) auto

lemma applyEdits_whole:
  "applyEdits eol t [(Range 0 (nat (lineCount t)), c)] = normalizeEol eol c"
proof -
  have "lineOffset (nat (lineCount t)) t = length t"
    by (rule lineOffset_past_end) (simp add: lineCount_def)
  then show ?thesis
    by (simp add: applyEdits_def)
qed

lemma openDiffView_Applied:
  shows "drawable (buildChanges ds) \<Longrightarrow> \<not> threw (openDiffView path content ds Applied s)"
    and "getText (documents (stateOf (openDiffView path content ds Applied s)) (targetUri s path))
           = normalizeEol (lineEol (documents s (targetUri s path))) (buildCombined ds)"
    and "remaining (stateOf (openDiffView path content ds Applied s)) (targetUri s path)
           = buildChanges ds"
proof -
  have r: "newRange 0 (lineCount t) = Some (Range 0 (nat (lineCount t)))" for t
    by (simp add: newRange_def lineCount_def)
  show "drawable (buildChanges ds) \<Longrightarrow> \<not> threw (openDiffView path content ds Applied s)"
    by (simp add: openDiffView_def Let_def r hostEdit_def drawChanges_snd drawChanges_None
          buildChanges_def)
  show "getText (documents (stateOf (openDiffView path content ds Applied s)) (targetUri s path))
           = normalizeEol (lineEol (documents s (targetUri s path))) (buildCombined ds)"
    by (simp add: openDiffView_def Let_def r hostEdit_def applyEdits_whole buildCombined_def
          showTextDocument_def drawChanges_snd)
  show "remaining (stateOf (openDiffView path content ds Applied s)) (targetUri s path)
           = buildChanges ds"
    by (simp add: openDiffView_def Let_def r hostEdit_def remaining_def buildChanges_def
          drawChanges_snd)
qed

lemma applyEdits_Nil: "applyEdits eol t [] = t"
  by (simp add: applyEdits_def)

lemma acceptAllChanges_Applied:
  assumes "fileChangeMap s uri = Some fc" and "acceptAllEdits (rev (changes fc)) = Some es"
  shows "\<not> threw (acceptAllChanges uri Applied s)"
    and "getText (documents (stateOf (acceptAllChanges uri Applied s)) uri)
           = applyEdits (lineEol (documents s uri)) (getText (documents s uri)) es"
  using assms
  by (simp_all add: acceptAllChanges_def Let_def hostEdit_def saveDocument_def
        showTextDocument_def applyEdits_Nil)

lemma rejectAllChanges_Applied:
  assumes "fileChangeMap s uri = Some fc" and "rejectAllEdits (rev (changes fc)) = Some es"
  shows "\<not> threw (rejectAllChanges uri Applied s)"
    and "getText (documents (stateOf (rejectAllChanges uri Applied s)) uri)
           = applyEdits (lineEol (documents s uri)) (getText (documents s uri)) es"
  using assms
  by (simp_all add: rejectAllChanges_def Let_def hostEdit_def saveDocument_def
        showTextDocument_def closeActiveEditor_def applyEdits_Nil)

text \<open>
  A bulk resolution returns whenever the host's edit call does and the records are
  well-formed with non-negative lines.
\<close>

lemma acceptAllChanges_returns:
  assumes "fileChangeMap s uri = Some fc" and "reply \<noteq> Failed"
    and "\<forall>c\<in>set (changes fc). 0 \<le> primaryLine c \<and> recordOk c"
  shows "\<not> threw (acceptAllChanges uri reply s)"
proof -
  have "acceptAllEdits (rev (changes fc)) = Some (concat (map (spans True) (rev (changes fc))))"
    by (rule acceptAllEdits_spans) (use assms(3) in simp)
  then show ?thesis
    using assms(1,2)
    by (cases reply) (simp_all add: acceptAllChanges_def Let_def hostEdit_def)
qed

lemma rejectAllChanges_returns:
  assumes "fileChangeMap s uri = Some fc" and "reply \<noteq> Failed"
    and "\<forall>c\<in>set (changes fc). 0 \<le> primaryLine c \<and> recordOk c"
  shows "\<not> threw (rejectAllChanges uri reply s)"
proof -
  have "rejectAllEdits (rev (changes fc)) = Some (concat (map (spans False) (rev (changes fc))))"
    by (rule rejectAllEdits_spans) (use assms(3) in simp)
  then show ?thesis
    using assms(1,2)
    by (cases reply) (simp_all add: rejectAllChanges_def Let_def hostEdit_def)
qed

lemma partsWf_of_contract:
  assumes "list_all (\<lambda>p. part_count p = countLines (part_value p)) ds"
    and "list_all (\<lambda>p. \<not> (part_added p \<and> part_removed p)) ds"
    and "noAdjacentRemoved ds"
    and "list_all terminated (butlast ds)"
  shows "partsWf ds"
  using assms
  by (induction ds rule: partsWf.induct) (simp_all add: partOk_def)

lemma openDiffView_stored:
  "\<exists>fc. fileChangeMap (stateOf (openDiffView path content ds Applied s)) (targetUri s path) = Some fc
        \<and> changes fc = buildChanges ds"
proof -
  have r: "newRange 0 (lineCount t) = Some (Range 0 (nat (lineCount t)))" for t
    by (simp add: newRange_def lineCount_def)
  show ?thesis
    by (simp add: openDiffView_def Let_def r hostEdit_def buildChanges_def drawChanges_snd)
qed

lemma spans_values:
  "map (\<lambda>(rg, v). (f rg, g rg, normalizeEol eol v)) (concat (map (spans acc) cs))
   = map (\<lambda>(rg, v). (f rg, g rg, v)) (concat (map (spans acc) cs))"
proof (induction cs)
  case Nil
  then show ?case by simp
next
  case (Cons c cs)
  then show ?case by (cases c) simp_all
qed

lemma bulk_edits_text:
  assumes c: "differContract original modified ds" and t: "list_all terminated (butlast ds)"
  shows "applyEdits eol (buildCombined ds) (concat (map (spans acc) (rev (buildChanges ds))))
         = concat (map part_value (filter (\<lambda>p. \<not> dropped acc p) ds))"
proof -
  have adj: "noAdjacentRemoved ds"
    and cnt: "list_all (\<lambda>p. part_count p = countLines (part_value p)) ds"
    and both: "list_all (\<lambda>p. \<not> (part_added p \<and> part_removed p)) ds"
    using c unfolding differContract_def by blast+
  have wf: "partsWf ds"
    by (rule partsWf_of_contract [OF cnt both adj t])
  have b: "buildChanges ds = mergeSpec 0 ds"
    using diffLoop_emitted [of ds loopStart] adj by (simp add: buildChanges_def loopStart_def)
  have cc: "buildCombined ds = concat (map part_value ds)"
    by (simp add: buildCombined_def diffLoop_combineContent loopStart_def)
  have sp: "map (\<lambda>(rg, v). (lineOffset (startLine rg) (buildCombined ds),
                             lineOffset (endLine rg) (buildCombined ds), v))
              (concat (map (spans acc) (mergeSpec 0 ds)))
            = deletedSpans (dropped acc) 0 ds"
    using mergeSpec_spans [OF wf, of "buildCombined ds" "[]" 0 acc]
    by (simp add: cc complete_def)
  have e1: "concat (map (spans acc) (rev (buildChanges ds)))
            = rev (concat (map (spans acc) (mergeSpec 0 ds)))"
    by (simp only: b spans_rev)
  have sv: "map (\<lambda>(rg, v). (lineOffset (startLine rg) (buildCombined ds),
                             lineOffset (endLine rg) (buildCombined ds), normalizeEol eol v))
              (rev (concat (map (spans acc) (mergeSpec 0 ds))))
            = map (\<lambda>(rg, v). (lineOffset (startLine rg) (buildCombined ds),
                             lineOffset (endLine rg) (buildCombined ds), v))
              (rev (concat (map (spans acc) (mergeSpec 0 ds))))"
    unfolding e1 [symmetric] by (rule spans_values)
  have "applyEdits eol (buildCombined ds) (concat (map (spans acc) (rev (buildChanges ds))))
        = foldl (\<lambda>t (a, b, v). take a t @ v @ drop b t) (buildCombined ds)
            (map (\<lambda>(rg, v). (lineOffset (startLine rg) (buildCombined ds),
                             lineOffset (endLine rg) (buildCombined ds), v))
              (rev (concat (map (spans acc) (mergeSpec 0 ds)))))"
    by (simp only: applyEdits_def e1 sv)
  also have "\<dots> = foldl (\<lambda>t (a, b, v). take a t @ v @ drop b t) (buildCombined ds)
            (rev (deletedSpans (dropped acc) 0 ds))"
    by (simp only: rev_map [symmetric] sp)
  also have "\<dots> = concat (map part_value (filter (\<lambda>p. \<not> dropped acc p) ds))"
    using delete_spans [of "[]" ds "dropped acc"] by (simp add: cc)
  finally show ?thesis .
qed

lemma kept_on_accept:
  "filter (\<lambda>p. \<not> dropped True p) ds = filter (\<lambda>p. \<not> part_removed p) ds"
  by (rule filter_cong) (simp_all add: dropped_def kind_def)

lemma kept_on_reject:
  assumes "list_all (\<lambda>p. \<not> (part_added p \<and> part_removed p)) ds"
  shows "filter (\<lambda>p. \<not> dropped False p) ds = filter (\<lambda>p. \<not> part_added p) ds"
  using assms by (intro filter_cong) (auto simp: dropped_def kind_def list_all_iff)

lemma buildChanges_nonneg:
  assumes "differContract original modified ds"
  shows "\<forall>c\<in>set (rev (buildChanges ds)). 0 \<le> primaryLine c \<and> recordOk c"
proof -
  have "noAdjacentRemoved ds"
    using assms by (simp add: differContract_def)
  then have b: "buildChanges ds = mergeSpec 0 ds"
    using diffLoop_emitted [of ds loopStart] by (simp add: buildChanges_def loopStart_def)
  have "changesInv (mergeSpec 0 ds)" "\<forall>c\<in>set (mergeSpec 0 ds). 0 \<le> primaryLine c"
    using mergeSpec_inv [OF differContract_counts [OF assms], of 0] by simp_all
  then show ?thesis
    by (simp add: b changesInv_def list_all_iff)
qed

text \<open>
  When every segment of the diff but the last ends with a line terminator (as when both
  texts end with one) and the segments are written with the line terminator of the
  buffer, applying the diff and then accepting all changes gives the modified text, and
  applying it and rejecting all gives back the original text.
\<close>

lemma roundtrip_terminated_segments:
  assumes c: "differContract (getText (documents s (targetUri s path))) modified ds"
    and t: "list_all terminated (butlast ds)"
    and e: "normalizeEol (lineEol (documents s (targetUri s path))) (buildCombined ds)
              = buildCombined ds"
  shows "\<not> threw (andThen (openDiffView path content ds Applied s)
                    (acceptAllChanges (targetUri s path) Applied))"
    and "getText (documents (stateOf (andThen (openDiffView path content ds Applied s)
                    (acceptAllChanges (targetUri s path) Applied))) (targetUri s path)) = modified"
    and "\<not> threw (andThen (openDiffView path content ds Applied s)
                    (rejectAllChanges (targetUri s path) Applied))"
    and "getText (documents (stateOf (andThen (openDiffView path content ds Applied s)
                    (rejectAllChanges (targetUri s path) Applied))) (targetUri s path))
           = getText (documents s (targetUri s path))"
proof -
  let ?u = "targetUri s path"
  let ?s1 = "stateOf (openDiffView path content ds Applied s)"
  have dr: "drawable (buildChanges ds)"
    by (rule drawable_wf) (use buildChanges_nonneg [OF c] in simp)
  have d: "openDiffView path content ds Applied s = Done ?s1"
    by (rule not_threw_Done [OF openDiffView_Applied(1) [OF dr]])
  obtain fc where fc: "fileChangeMap ?s1 ?u = Some fc" and ch: "changes fc = buildChanges ds"
    using openDiffView_stored [of path content ds s] by blast
  have tx: "getText (documents ?s1 ?u) = buildCombined ds"
    unfolding openDiffView_Applied(2) by (rule e)
  have both: "list_all (\<lambda>p. \<not> (part_added p \<and> part_removed p)) ds"
    and orig: "concat (map part_value (filter (\<lambda>p. \<not> part_added p) ds))
                 = getText (documents s ?u)"
    and modi: "concat (map part_value (filter (\<lambda>p. \<not> part_removed p) ds)) = modified"
    using c unfolding differContract_def by blast+
  have ea: "acceptAllEdits (rev (changes fc)) = Some (concat (map (spans True) (rev (buildChanges ds))))"
    unfolding ch by (rule acceptAllEdits_spans [OF buildChanges_nonneg [OF c]])
  have er: "rejectAllEdits (rev (changes fc)) = Some (concat (map (spans False) (rev (buildChanges ds))))"
    unfolding ch by (rule rejectAllEdits_spans [OF buildChanges_nonneg [OF c]])
  have a: "andThen (openDiffView path content ds Applied s) f = f ?s1" for f
    by (subst d) (simp add: andThen_def)
  show "\<not> threw (andThen (openDiffView path content ds Applied s) (acceptAllChanges ?u Applied))"
    unfolding a by (rule acceptAllChanges_Applied(1) [OF fc ea])
  show "\<not> threw (andThen (openDiffView path content ds Applied s) (rejectAllChanges ?u Applied))"
    unfolding a by (rule rejectAllChanges_Applied(1) [OF fc er])
  show "getText (documents (stateOf (andThen (openDiffView path content ds Applied s)
          (acceptAllChanges ?u Applied))) ?u) = modified"
    unfolding a acceptAllChanges_Applied(2) [OF fc ea] tx bulk_edits_text [OF c t] kept_on_accept
    by (rule modi)
  show "getText (documents (stateOf (andThen (openDiffView path content ds Applied s)
          (rejectAllChanges ?u Applied))) ?u) = getText (documents s ?u)"
    unfolding a rejectAllChanges_Applied(2) [OF fc er] tx bulk_edits_text [OF c t]
      kept_on_reject [OF both]
    by (rule orig)
qed

lemma roundtrip_terminated_example:
  "getText (documents (stateOf (andThen
      (openDiffView ''/w/a.txt'' ''a\<newline>c\<newline>''
         [Part ''a\<newline>'' 1 False False, Part ''b\<newline>'' 1 False True, Part ''c\<newline>'' 1 True False]
         Applied (idleState ''a\<newline>b\<newline>''))
      (acceptAllChanges (Uri ''file'' ''/w/a.txt'') Applied))) (Uri ''file'' ''/w/a.txt'')) = ''a\<newline>c\<newline>''
   \<and> getText (documents (stateOf (andThen
      (openDiffView ''/w/a.txt'' ''a\<newline>c\<newline>''
         [Part ''a\<newline>'' 1 False False, Part ''b\<newline>'' 1 False True, Part ''c\<newline>'' 1 True False]
         Applied (idleState ''a\<newline>b\<newline>''))
      (rejectAllChanges (Uri ''file'' ''/w/a.txt'') Applied))) (Uri ''file'' ''/w/a.txt'')) = ''a\<newline>b\<newline>''"
proof -
  let ?ds = "[Part ''a\<newline>'' 1 False False, Part ''b\<newline>'' 1 False True, Part ''c\<newline>'' 1 True False]"
  let ?s = "idleState ''a\<newline>b\<newline>''"
  have u: "targetUri ?s ''/w/a.txt'' = Uri ''file'' ''/w/a.txt''"
    by (simp add: targetUri_def idleState_def)
  have c: "differContract (getText (documents ?s (targetUri ?s ''/w/a.txt''))) ''a\<newline>c\<newline>'' ?ds"
    by (simp add: differContract_def countLines_def LF_def idleState_def)
  have t: "list_all terminated (butlast ?ds)"
    by (simp add: terminated_def LF_def)
  have e: "normalizeEol (lineEol (documents ?s (targetUri ?s ''/w/a.txt''))) (buildCombined ?ds)
             = buildCombined ?ds"
    by (simp add: buildCombined_def loopStart_def loopBody_def Let_def lineEol_def idleState_def
          LF_def CR_def)
  show ?thesis
    using roundtrip_terminated_segments(2,4) [OF c t e, of "''a\<newline>c\<newline>''", unfolded u]
    by (simp add: idleState_def)
qed

lemma unterminated_example_contract:
  "differContract ''a\<newline>b'' ''a\<newline>c''
     [Part ''a\<newline>'' 1 False False, Part ''b'' 1 False True, Part ''c'' 1 True False]"
  by (simp add: differContract_def countLines_def LF_def)

section \<open>The lines of the document after a single resolution\<close>








section \<open>The claims\<close>

text \<open>
  Claim C3. For every segment sequence of the line differ (no two removed segments
  adjacent), the records the loop of \<^verbatim>\<open>openDiffView\<close> pushes are exactly those of the
  merge rule: one \<open>Modified\<close> for a removed segment directly followed by an added one,
  a standalone \<open>Removed\<close> for a removed segment that is last or followed by an unchanged
  one, a standalone \<open>Added\<close> for an added segment not directly preceded by a removed
  one; and the line counter ends at the sum of all segment counts, whatever their kind.
\<close>

theorem C3_merge_rule:
  assumes "noAdjacentRemoved ds"
  shows "buildChanges ds = mergeSpec 0 ds
         \<and> lineNumber (diffLoop ds loopStart) = sum_list (map part_count ds)"
proof -
  have "emitted (diffLoop ds loopStart) = emitted loopStart @ mergeSpec (lineNumber loopStart) ds"
    using diffLoop_emitted [of ds loopStart] assms by (simp add: loopStart_def)
  then show ?thesis
    by (simp add: buildChanges_def diffLoop_lineNumber loopStart_def)
qed

theorem C3_merge_rule_witness:
  "noAdjacentRemoved
     [Part ''a'' 1 False False, Part ''b'' 2 False True, Part ''c'' 1 True False,
      Part ''d'' 1 True False, Part ''e'' 1 False False, Part ''f'' 3 False True,
      Part ''g'' 1 False False, Part ''h'' 1 False True]
   \<and> buildChanges
     [Part ''a'' 1 False False, Part ''b'' 2 False True, Part ''c'' 1 True False,
      Part ''d'' 1 True False, Part ''e'' 1 False False, Part ''f'' 3 False True,
      Part ''g'' 1 False False, Part ''h'' 1 False True]
     = [Modified (RemovedChange 1 2 ''b'') (AddedChange 3 1 ''c''),
        Added (AddedChange 4 1 ''d''),
        Removed (RemovedChange 6 3 ''f''),
        Removed (RemovedChange 10 1 ''h'')]"
  using C3_merge_rule [of
     "[Part ''a'' 1 False False, Part ''b'' 2 False True, Part ''c'' 1 True False,
      Part ''d'' 1 True False, Part ''e'' 1 False False, Part ''f'' 3 False True,
      Part ''g'' 1 False False, Part ''h'' 1 False True]"]
  by (simp add: kind_def asRemoved_def asAdded_def)

text \<open>
  Claim C1 at a concrete input. The original text is the two lines \<open>a\<close>, \<open>b\<close> and the
  modified text the two lines \<open>a\<close>, \<open>c\<close>, neither ending with a line terminator; the line
  differ answers with the unchanged segment \<open>a\<close> (terminated), the removed segment \<open>b\<close> and
  the added segment \<open>c\<close> (lemma \<open>unterminated_example_contract\<close>). The combined buffer
  puts \<open>b\<close> and \<open>c\<close> on one line, the builder still numbers them as lines 1 and 2, and
  the bulk operations delete by line: accepting all leaves the single terminated line \<open>a\<close>
  instead of the modified text, rejecting all deletes nothing and leaves the combined
  buffer instead of the original text. When every segment but the last is terminated the
  round trip holds (lemma \<open>roundtrip_terminated_segments\<close>).
\<close>

theorem C1_roundtrip_fails_without_final_newline:
  "getText (documents (idleState ''a\<newline>b'') (Uri ''file'' ''/w/a.txt'')) = ''a\<newline>b''
   \<and> getText (documents (stateOf
         (openDiffView ''/w/a.txt'' ''a\<newline>c''
            [Part ''a\<newline>'' 1 False False, Part ''b'' 1 False True, Part ''c'' 1 True False]
            Applied (idleState ''a\<newline>b''))) (Uri ''file'' ''/w/a.txt'')) = ''a\<newline>bc''
   \<and> remaining (stateOf
         (openDiffView ''/w/a.txt'' ''a\<newline>c''
            [Part ''a\<newline>'' 1 False False, Part ''b'' 1 False True, Part ''c'' 1 True False]
            Applied (idleState ''a\<newline>b''))) (Uri ''file'' ''/w/a.txt'')
       = [Modified (RemovedChange 1 1 ''b'') (AddedChange 2 1 ''c'')]
   \<and> \<not> threw (andThen
         (openDiffView ''/w/a.txt'' ''a\<newline>c''
            [Part ''a\<newline>'' 1 False False, Part ''b'' 1 False True, Part ''c'' 1 True False]
            Applied (idleState ''a\<newline>b''))
         (acceptAllChanges (Uri ''file'' ''/w/a.txt'') Applied))
   \<and> getText (documents (stateOf (andThen
         (openDiffView ''/w/a.txt'' ''a\<newline>c''
            [Part ''a\<newline>'' 1 False False, Part ''b'' 1 False True, Part ''c'' 1 True False]
            Applied (idleState ''a\<newline>b''))
         (acceptAllChanges (Uri ''file'' ''/w/a.txt'') Applied))) (Uri ''file'' ''/w/a.txt'')) = ''a\<newline>''
   \<and> \<not> threw (andThen
         (openDiffView ''/w/a.txt'' ''a\<newline>c''
            [Part ''a\<newline>'' 1 False False, Part ''b'' 1 False True, Part ''c'' 1 True False]
            Applied (idleState ''a\<newline>b''))
         (rejectAllChanges (Uri ''file'' ''/w/a.txt'') Applied))
   \<and> getText (documents (stateOf (andThen
         (openDiffView ''/w/a.txt'' ''a\<newline>c''
            [Part ''a\<newline>'' 1 False False, Part ''b'' 1 False True, Part ''c'' 1 True False]
            Applied (idleState ''a\<newline>b''))
         (rejectAllChanges (Uri ''file'' ''/w/a.txt'') Applied))) (Uri ''file'' ''/w/a.txt'')) = ''a\<newline>bc''"
  by (simp add: LF_def CR_def idleState_def openDiffView_def
        targetUri_def showTextDocument_def lineEol_def loopStart_def loopBody_def Let_def
        newRange_def lineCount_def hostEdit_def applyEdits_def remaining_def andThen_def
        drawChanges_def drawable_def positionLines_def
        acceptAllChanges_def rejectAllChanges_def saveDocument_def closeActiveEditor_def)







text \<open>
  Claim C5 at a concrete input. With three records in the change list, an explicit index 3
  (or -1) makes \<^verbatim>\<open>changes[index]\<close> undefined, and \<^verbatim>\<open>acceptChange\<close> and \<^verbatim>\<open>rejectChange\<close> throw
  a \<^verbatim>\<open>TypeError\<close> instead of returning silently; the state is unchanged.
\<close>

theorem C5_explicit_index_out_of_bounds:
  "acceptChange demoUri (Some 3) Applied (demoState demoUri demoChanges (Some demoUri))
     = Thrown TypeError (demoState demoUri demoChanges (Some demoUri))
   \<and> rejectChange demoUri (Some 3) Applied (demoState demoUri demoChanges (Some demoUri))
     = Thrown TypeError (demoState demoUri demoChanges (Some demoUri))
   \<and> acceptChange demoUri (Some (- 1)) Applied (demoState demoUri demoChanges (Some demoUri))
     = Thrown TypeError (demoState demoUri demoChanges (Some demoUri))"
  by (simp add: acceptChange_def rejectChange_def demoState_def demoChanges_def)

text \<open>
  Claim C6. When the change list of the active document has exactly one record and a call
  of \<^verbatim>\<open>acceptChange\<close> or \<^verbatim>\<open>rejectChange\<close> resolves it (explicit index 0, or the cursor
  inside the record), then after the call returns the store has no entry for the
  document. The call does return when the host does not throw and the record has positive
  counts and a non-negative line.
\<close>

theorem C6_last_record_empties_store:
  assumes "activeTextEditor s = Some uri" and "fileChangeMap s uri = Some fc"
    and "length (changes fc) = 1"
    and "i = Some 0 \<or> (i = None \<and> getChangeIndex (selectionLine s) fc = 0)"
  shows "(\<forall>s'. acceptChange uri i reply s = Done s' \<longrightarrow> fileChangeMap s' uri = None)
       \<and> (\<forall>s'. rejectChange uri i reply s = Done s' \<longrightarrow> fileChangeMap s' uri = None)
       \<and> (reply \<noteq> Failed \<and> recordOk (changes fc ! 0) \<and> 0 \<le> primaryLine (changes fc ! 0) \<longrightarrow>
            \<not> threw (acceptChange uri i reply s) \<and> \<not> threw (rejectChange uri i reply s))"
proof -
  have a: "acceptChange uri i reply s = acceptChangeAt uri fc 0 reply s"
    using acceptChange_at [OF assms(1,2,4)] assms(3) by simp
  have r: "rejectChange uri i reply s = rejectChangeAt uri fc 0 reply s"
    using rejectChange_at [OF assms(1,2,4)] assms(3) by simp
  show ?thesis
    using acceptChangeAt_last(1) [OF assms(3)] rejectChangeAt_last(1) [OF assms(3)]
      acceptChangeAt_last_returns [OF assms(3), of reply uri s]
      rejectChangeAt_last_returns [OF assms(3), of reply uri s]
    by (simp add: a r)
qed

theorem C6_last_record_empties_store_witness:
  "\<not> threw (acceptChange demoUri (Some 0) Applied
              (demoState demoUri [Removed (RemovedChange 2 3 ''c\<newline>d\<newline>e\<newline>'')] (Some demoUri)))
   \<and> fileChangeMap (stateOf (acceptChange demoUri (Some 0) Applied
              (demoState demoUri [Removed (RemovedChange 2 3 ''c\<newline>d\<newline>e\<newline>'')] (Some demoUri)))) demoUri = None
   \<and> \<not> threw (rejectChange demoUri (Some 0) Applied
              (demoState demoUri [Removed (RemovedChange 2 3 ''c\<newline>d\<newline>e\<newline>'')] (Some demoUri)))
   \<and> fileChangeMap (stateOf (rejectChange demoUri (Some 0) Applied
              (demoState demoUri [Removed (RemovedChange 2 3 ''c\<newline>d\<newline>e\<newline>'')] (Some demoUri)))) demoUri = None"
proof -
  let ?s = "demoState demoUri [Removed (RemovedChange 2 3 ''c\<newline>d\<newline>e\<newline>'')] (Some demoUri)"
  let ?fc = "\<lparr>originalContent = [], modifiedContent = [],
              changes = [Removed (RemovedChange 2 3 ''c\<newline>d\<newline>e\<newline>'')]\<rparr>"
  have h: "activeTextEditor ?s = Some demoUri" "fileChangeMap ?s demoUri = Some ?fc"
    "length (changes ?fc) = 1"
    "Some 0 = Some (0::int) \<or> (Some (0::int) = None \<and> getChangeIndex (selectionLine ?s) ?fc = 0)"
    by (simp_all add: demoState_def)
  note t = C6_last_record_empties_store [OF h, of Applied]
  have nt: "\<not> threw (acceptChange demoUri (Some 0) Applied ?s)"
    "\<not> threw (rejectChange demoUri (Some 0) Applied ?s)"
    using t by simp_all
  show ?thesis
    using t nt not_threw_Done [OF nt(1)] not_threw_Done [OF nt(2)] by metis
qed

text \<open>
  Claim C7. When a resolution empties the change list: \<^verbatim>\<open>acceptChange\<close> on the last record
  and \<^verbatim>\<open>acceptAllChanges\<close> save the document, whatever its scheme; \<^verbatim>\<open>rejectChange\<close> on the
  last record and \<^verbatim>\<open>rejectAllChanges\<close> save it when its scheme is \<^verbatim>\<open>file\<close> and close the
  active editor without saving otherwise. These calls do return whenever the host's edit
  call does not throw and the records are well-formed with non-negative lines.
\<close>

theorem C7_save_or_close:
  assumes "fileChangeMap s uri = Some fc"
  shows "(activeTextEditor s = Some uri \<and> length (changes fc) = 1
          \<and> (i = Some 0 \<or> (i = None \<and> getChangeIndex (selectionLine s) fc = 0)) \<longrightarrow>
            (\<forall>s'. acceptChange uri i reply s = Done s' \<longrightarrow> savedByCall s s' uri)
          \<and> (\<forall>s'. rejectChange uri i reply s = Done s' \<longrightarrow>
                 (if scheme uri = ''file'' then savedByCall s s' uri else closedByCall s s'))
          \<and> (reply \<noteq> Failed \<and> recordOk (changes fc ! 0) \<and> 0 \<le> primaryLine (changes fc ! 0) \<longrightarrow>
                 \<not> threw (acceptChange uri i reply s) \<and> \<not> threw (rejectChange uri i reply s)))
       \<and> (\<forall>s'. acceptAllChanges uri reply s = Done s' \<longrightarrow> savedByCall s s' uri)
       \<and> (\<forall>s'. rejectAllChanges uri reply s = Done s' \<longrightarrow>
              (if scheme uri = ''file'' then savedByCall s s' uri else closedByCall s s'))
       \<and> (reply \<noteq> Failed \<and> (\<forall>c\<in>set (changes fc). 0 \<le> primaryLine c \<and> recordOk c) \<longrightarrow>
              \<not> threw (acceptAllChanges uri reply s) \<and> \<not> threw (rejectAllChanges uri reply s))"
proof (intro conjI impI allI)
  fix s'
  assume h: "activeTextEditor s = Some uri \<and> length (changes fc) = 1
          \<and> (i = Some 0 \<or> (i = None \<and> getChangeIndex (selectionLine s) fc = 0))"
    and d: "acceptChange uri i reply s = Done s'"
  have "acceptChange uri i reply s = acceptChangeAt uri fc 0 reply s"
    using acceptChange_at [of s uri fc i 0 reply] h assms by simp
  then show "savedByCall s s' uri"
    using acceptChangeAt_last [of fc uri reply s s'] h d by (simp add: savedByCall_def)
next
  fix s'
  assume h: "activeTextEditor s = Some uri \<and> length (changes fc) = 1
          \<and> (i = Some 0 \<or> (i = None \<and> getChangeIndex (selectionLine s) fc = 0))"
    and d: "rejectChange uri i reply s = Done s'"
  have "rejectChange uri i reply s = rejectChangeAt uri fc 0 reply s"
    using rejectChange_at [of s uri fc i 0 reply] h assms by simp
  then show "if scheme uri = ''file'' then savedByCall s s' uri else closedByCall s s'"
    using rejectChangeAt_last [of fc uri reply s s'] h d
    by (simp add: savedByCall_def closedByCall_def)
next
  assume h: "activeTextEditor s = Some uri \<and> length (changes fc) = 1
          \<and> (i = Some 0 \<or> (i = None \<and> getChangeIndex (selectionLine s) fc = 0))"
    and w: "reply \<noteq> Failed \<and> recordOk (changes fc ! 0) \<and> 0 \<le> primaryLine (changes fc ! 0)"
  have "acceptChange uri i reply s = acceptChangeAt uri fc 0 reply s"
    using acceptChange_at [of s uri fc i 0 reply] h assms by simp
  then show "\<not> threw (acceptChange uri i reply s)"
    using acceptChangeAt_last_returns [of fc reply uri s] h w by simp
next
  assume h: "activeTextEditor s = Some uri \<and> length (changes fc) = 1
          \<and> (i = Some 0 \<or> (i = None \<and> getChangeIndex (selectionLine s) fc = 0))"
    and w: "reply \<noteq> Failed \<and> recordOk (changes fc ! 0) \<and> 0 \<le> primaryLine (changes fc ! 0)"
  have "rejectChange uri i reply s = rejectChangeAt uri fc 0 reply s"
    using rejectChange_at [of s uri fc i 0 reply] h assms by simp
  then show "\<not> threw (rejectChange uri i reply s)"
    using rejectChangeAt_last_returns [of fc reply uri s] h w by simp
next
  fix s'
  assume "acceptAllChanges uri reply s = Done s'"
  then show "savedByCall s s' uri"
    using acceptAllChanges_Done(1) [OF assms] by simp
next
  fix s'
  assume "rejectAllChanges uri reply s = Done s'"
  then show "if scheme uri = ''file'' then savedByCall s s' uri else closedByCall s s'"
    using rejectAllChanges_Done(1) [OF assms] by simp
next
  assume "reply \<noteq> Failed \<and> (\<forall>c\<in>set (changes fc). 0 \<le> primaryLine c \<and> recordOk c)"
  then show "\<not> threw (acceptAllChanges uri reply s)"
    using acceptAllChanges_returns [OF assms, of reply] by simp
next
  assume "reply \<noteq> Failed \<and> (\<forall>c\<in>set (changes fc). 0 \<le> primaryLine c \<and> recordOk c)"
  then show "\<not> threw (rejectAllChanges uri reply s)"
    using rejectAllChanges_returns [OF assms, of reply] by simp
qed

theorem C7_save_or_close_witness:
  "savedByCall (demoState newUri [Added (AddedChange 8 1 ''i\<newline>'')] (Some newUri))
     (stateOf (acceptChange newUri (Some 0) Applied
        (demoState newUri [Added (AddedChange 8 1 ''i\<newline>'')] (Some newUri)))) newUri
   \<and> closedByCall (demoState newUri [Added (AddedChange 8 1 ''i\<newline>'')] (Some newUri))
     (stateOf (rejectChange newUri (Some 0) Applied
        (demoState newUri [Added (AddedChange 8 1 ''i\<newline>'')] (Some newUri))))
   \<and> savedByCall (demoState demoUri [Added (AddedChange 8 1 ''i\<newline>'')] (Some demoUri))
     (stateOf (rejectChange demoUri (Some 0) Applied
        (demoState demoUri [Added (AddedChange 8 1 ''i\<newline>'')] (Some demoUri)))) demoUri
   \<and> \<not> threw (acceptAllChanges newUri Applied (demoState newUri demoChanges (Some newUri)))
   \<and> savedByCall (demoState newUri demoChanges (Some newUri))
     (stateOf (acceptAllChanges newUri Applied (demoState newUri demoChanges (Some newUri)))) newUri
   \<and> \<not> threw (rejectAllChanges newUri Applied (demoState newUri demoChanges (Some newUri)))
   \<and> closedByCall (demoState newUri demoChanges (Some newUri))
     (stateOf (rejectAllChanges newUri Applied (demoState newUri demoChanges (Some newUri))))
   \<and> \<not> threw (rejectAllChanges demoUri Applied (demoState demoUri demoChanges (Some demoUri)))
   \<and> savedByCall (demoState demoUri demoChanges (Some demoUri))
     (stateOf (rejectAllChanges demoUri Applied (demoState demoUri demoChanges (Some demoUri)))) demoUri"
proof -
  let ?cs = "[Added (AddedChange 8 1 ''i\<newline>'')]"
  let ?fc = "\<lparr>originalContent = [], modifiedContent = [], changes = ?cs\<rparr>"
  let ?n = "demoState newUri ?cs (Some newUri)"
  let ?d = "demoState demoUri ?cs (Some demoUri)"
  let ?gc = "\<lparr>originalContent = [], modifiedContent = [], changes = demoChanges\<rparr>"
  let ?N = "demoState newUri demoChanges (Some newUri)"
  let ?D = "demoState demoUri demoChanges (Some demoUri)"
  have hn: "fileChangeMap ?n newUri = Some ?fc" and hd: "fileChangeMap ?d demoUri = Some ?fc"
    and hN: "fileChangeMap ?N newUri = Some ?gc" and hD: "fileChangeMap ?D demoUri = Some ?gc"
    by (simp_all add: demoState_def)
  have pre: "activeTextEditor ?n = Some newUri \<and> length (changes ?fc) = 1
      \<and> (Some 0 = Some (0::int) \<or> (Some (0::int) = None \<and> getChangeIndex (selectionLine ?n) ?fc = 0))"
    "activeTextEditor ?d = Some demoUri \<and> length (changes ?fc) = 1
      \<and> (Some 0 = Some (0::int) \<or> (Some (0::int) = None \<and> getChangeIndex (selectionLine ?d) ?fc = 0))"
    by (simp_all add: demoState_def)
  have w1: "Applied \<noteq> Failed \<and> recordOk (changes ?fc ! 0) \<and> 0 \<le> primaryLine (changes ?fc ! 0)"
    by simp
  have wa: "Applied \<noteq> Failed \<and> (\<forall>c\<in>set (changes ?gc). 0 \<le> primaryLine c \<and> recordOk c)"
    by (simp add: demoChanges_def)
  have sch: "scheme newUri \<noteq> ''file''" "scheme demoUri = ''file''"
    by (simp_all add: newUri_def demoUri_def)
  note tn = C7_save_or_close [OF hn, of "Some 0" Applied]
  note td = C7_save_or_close [OF hd, of "Some 0" Applied]
  note tN = C7_save_or_close [OF hN, of "Some 0" Applied]
  note tD = C7_save_or_close [OF hD, of "Some 0" Applied]
  have nt: "\<not> threw (acceptChange newUri (Some 0) Applied ?n)"
    "\<not> threw (rejectChange newUri (Some 0) Applied ?n)"
    using tn pre(1) w1 by blast+
  have ntd: "\<not> threw (rejectChange demoUri (Some 0) Applied ?d)"
    using td pre(2) w1 by blast
  have ntN: "\<not> threw (acceptAllChanges newUri Applied ?N)"
    "\<not> threw (rejectAllChanges newUri Applied ?N)"
    using tN wa by blast+
  have ntD: "\<not> threw (rejectAllChanges demoUri Applied ?D)"
    using tD wa by blast
  have 1: "savedByCall ?n (stateOf (acceptChange newUri (Some 0) Applied ?n)) newUri"
    using tn pre(1) not_threw_Done [OF nt(1)] by blast
  have 2: "closedByCall ?n (stateOf (rejectChange newUri (Some 0) Applied ?n))"
    using tn pre(1) sch(1) not_threw_Done [OF nt(2)] by metis
  have 3: "savedByCall ?d (stateOf (rejectChange demoUri (Some 0) Applied ?d)) demoUri"
    using td pre(2) sch(2) not_threw_Done [OF ntd] by metis
  have 4: "savedByCall ?N (stateOf (acceptAllChanges newUri Applied ?N)) newUri"
    using tN not_threw_Done [OF ntN(1)] by blast
  have 5: "closedByCall ?N (stateOf (rejectAllChanges newUri Applied ?N))"
    using tN sch(1) not_threw_Done [OF ntN(2)] by metis
  have 6: "savedByCall ?D (stateOf (rejectAllChanges demoUri Applied ?D)) demoUri"
    using tD sch(2) not_threw_Done [OF ntD] by metis
  show ?thesis
    using 1 2 3 4 5 6 ntN ntD by simp
qed

text \<open>
  Claim C8. The change list stored by \<^verbatim>\<open>openDiffView\<close> for an output of the line differ is
  ordered: primary lines strictly increase and no span reaches into the next record; and
  a single \<^verbatim>\<open>acceptChange\<close> or \<^verbatim>\<open>rejectChange\<close>, however it ends, leaves an ordered change
  list ordered.
\<close>

theorem C8_ordering_invariant:
  "(differContract (getText (documents s (targetUri s path)))
        (replaceEol (lineEol (documents s (targetUri s path))) content) ds
      \<and> openDiffView path content ds reply s = Done s' \<longrightarrow>
      changesInv (remaining s' (targetUri s path)))
   \<and> (changesInv (remaining t uri) \<longrightarrow>
        changesInv (remaining (stateOf (acceptChange uri i r t)) uri)
      \<and> changesInv (remaining (stateOf (rejectChange uri i r t)) uri))"
  using buildChanges_inv [of _ _ ds] openDiffView_Done [of path content ds reply s s']
    acceptChange_inv [of t uri i r] rejectChange_inv [of t uri i r]
  by auto

theorem C8_ordering_invariant_witness:
  "differContract ''a\<newline>b\<newline>'' ''a\<newline>c\<newline>''
     [Part ''a\<newline>'' 1 False False, Part ''b\<newline>'' 1 False True, Part ''c\<newline>'' 1 True False]
   \<and> \<not> threw (openDiffView ''/w/a.txt'' ''a\<newline>c\<newline>''
        [Part ''a\<newline>'' 1 False False, Part ''b\<newline>'' 1 False True, Part ''c\<newline>'' 1 True False]
        Applied (idleState ''a\<newline>b\<newline>''))
   \<and> changesInv (remaining (stateOf (openDiffView ''/w/a.txt'' ''a\<newline>c\<newline>''
        [Part ''a\<newline>'' 1 False False, Part ''b\<newline>'' 1 False True, Part ''c\<newline>'' 1 True False]
        Applied (idleState ''a\<newline>b\<newline>''))) (Uri ''file'' ''/w/a.txt''))
   \<and> changesInv (remaining (demoState demoUri demoChanges (Some demoUri)) demoUri)
   \<and> changesInv (remaining (stateOf (acceptChange demoUri (Some 1) Applied
        (demoState demoUri demoChanges (Some demoUri)))) demoUri)
   \<and> changesInv (remaining (stateOf (rejectChange demoUri (Some 1) Applied
        (demoState demoUri demoChanges (Some demoUri)))) demoUri)"
proof -
  let ?ds = "[Part ''a\<newline>'' 1 False False, Part ''b\<newline>'' 1 False True, Part ''c\<newline>'' 1 True False]"
  let ?i = "idleState ''a\<newline>b\<newline>''"
  let ?s = "demoState demoUri demoChanges (Some demoUri)"
  have c: "differContract ''a\<newline>b\<newline>'' ''a\<newline>c\<newline>'' ?ds"
    by (simp add: differContract_def countLines_def LF_def)
  have nt: "\<not> threw (openDiffView ''/w/a.txt'' ''a\<newline>c\<newline>'' ?ds Applied ?i)"
    by (simp add: openDiffView_def Let_def newRange_def lineCount_def hostEdit_def
          drawChanges_def drawable_def positionLines_def loopStart_def loopBody_def
          split: option.splits)
  have u: "targetUri ?i ''/w/a.txt'' = Uri ''file'' ''/w/a.txt''"
    "getText (documents ?i (Uri ''file'' ''/w/a.txt'')) = ''a\<newline>b\<newline>''"
    "replaceEol (lineEol (documents ?i (Uri ''file'' ''/w/a.txt''))) ''a\<newline>c\<newline>'' = ''a\<newline>c\<newline>''"
    by (simp_all add: targetUri_def idleState_def lineEol_def LF_def CR_def)
  have d: "changesInv (remaining ?s demoUri)"
    using demoChanges_inv by (simp add: remaining_def demoState_def)
  note t = C8_ordering_invariant [where ds = ?ds and path = "''/w/a.txt''" and content = "''a\<newline>c\<newline>''"
        and reply = Applied and s = ?i
        and s' = "stateOf (openDiffView ''/w/a.txt'' ''a\<newline>c\<newline>'' ?ds Applied ?i)"
        and t = ?s and uri = demoUri and i = "Some 1" and r = Applied]
  have 1: "changesInv (remaining (stateOf (openDiffView ''/w/a.txt'' ''a\<newline>c\<newline>'' ?ds Applied ?i))
             (Uri ''file'' ''/w/a.txt''))"
    using t c u not_threw_Done [OF nt] by metis
  have 2: "changesInv (remaining (stateOf (acceptChange demoUri (Some 1) Applied ?s)) demoUri)"
    "changesInv (remaining (stateOf (rejectChange demoUri (Some 1) Applied ?s)) demoUri)"
    using t d by blast+
  show ?thesis
    using c nt d 1 2 by blast
qed

text \<open>
  Claim C9. When the active editor does not show the document of \<open>uri\<close> (another document,
  or no editor at all), \<^verbatim>\<open>acceptChange\<close> and \<^verbatim>\<open>rejectChange\<close> return at once: the state,
  with document, change list and store, is unchanged.
\<close>

theorem C9_inactive_editor:
  assumes "activeTextEditor s \<noteq> Some uri"
  shows "acceptChange uri i reply s = Done s \<and> rejectChange uri i reply s = Done s"
  using assms by (simp add: acceptChange_def rejectChange_def)

theorem C9_inactive_editor_witness:
  "activeTextEditor (demoState demoUri demoChanges (Some otherUri)) \<noteq> Some demoUri
   \<and> fileChangeMap (demoState demoUri demoChanges (Some otherUri)) demoUri \<noteq> None
   \<and> acceptChange demoUri (Some 1) Applied (demoState demoUri demoChanges (Some otherUri))
       = Done (demoState demoUri demoChanges (Some otherUri))
   \<and> rejectChange demoUri (Some 1) Applied (demoState demoUri demoChanges (Some otherUri))
       = Done (demoState demoUri demoChanges (Some otherUri))"
  using C9_inactive_editor [of "demoState demoUri demoChanges (Some otherUri)" demoUri "Some 1" Applied]
  by (simp add: demoState_def demoUri_def otherUri_def)

text \<open>
  Claim C10. When the line differ reports no added and no removed segment, as it does for
  a proposed content equal to the current one, \<^verbatim>\<open>openDiffView\<close> still stores a changeset
  for the document, with an empty change list, fires the \<open>add\<close> event and sets the
  context key \<^verbatim>\<open>hasChanges\<close> to true.
\<close>

theorem C10_equal_content:
  assumes "list_all (\<lambda>p. \<not> part_added p \<and> \<not> part_removed p) ds" and "reply \<noteq> Failed"
  shows "\<not> threw (openDiffView path content ds reply s)
       \<and> fileChangeMap (stateOf (openDiffView path content ds reply s)) (targetUri s path)
           = Some \<lparr>originalContent = getText (documents s (targetUri s path)),
                   modifiedContent = replaceEol (lineEol (documents s (targetUri s path))) content,
                   changes = []\<rparr>
       \<and> fired (stateOf (openDiffView path content ds reply s)) = fired s @ [(AddEvent, path)]
       \<and> hasChanges (stateOf (openDiffView path content ds reply s))"
proof -
  have e: "emitted (diffLoop ds loopStart) = []"
    using diffLoop_unchanged [OF assms(1), of loopStart] by (simp add: loopStart_def)
  have r: "newRange 0 (lineCount t) = Some (Range 0 (nat (lineCount t)))" for t
    using lineCount_pos [of t] by (simp add: newRange_def)
  have p: "fsPath (targetUri s path) = path"
    by (simp add: targetUri_def)
  show ?thesis
    using assms(2) e p
    by (cases reply)
       (simp_all add: openDiffView_def Let_def r hostEdit_def showTextDocument_def
          drawChanges_snd drawChanges_None drawable_Nil)
qed

theorem C10_equal_content_witness:
  "list_all (\<lambda>p. \<not> part_added p \<and> \<not> part_removed p) [Part ''a\<newline>b\<newline>'' 2 False False]
   \<and> replaceEol (lineEol (documents (idleState ''a\<newline>b\<newline>'') (Uri ''file'' ''/w/a.txt''))) ''a\<newline>b\<newline>''
       = getText (documents (idleState ''a\<newline>b\<newline>'') (Uri ''file'' ''/w/a.txt''))
   \<and> \<not> threw (openDiffView ''/w/a.txt'' ''a\<newline>b\<newline>'' [Part ''a\<newline>b\<newline>'' 2 False False] Applied
               (idleState ''a\<newline>b\<newline>''))
   \<and> map_option changes
        (fileChangeMap (stateOf (openDiffView ''/w/a.txt'' ''a\<newline>b\<newline>'' [Part ''a\<newline>b\<newline>'' 2 False False] Applied
               (idleState ''a\<newline>b\<newline>''))) (Uri ''file'' ''/w/a.txt'')) = Some []
   \<and> fired (stateOf (openDiffView ''/w/a.txt'' ''a\<newline>b\<newline>'' [Part ''a\<newline>b\<newline>'' 2 False False] Applied
               (idleState ''a\<newline>b\<newline>''))) = [(AddEvent, ''/w/a.txt'')]
   \<and> hasChanges (stateOf (openDiffView ''/w/a.txt'' ''a\<newline>b\<newline>'' [Part ''a\<newline>b\<newline>'' 2 False False] Applied
               (idleState ''a\<newline>b\<newline>'')))"
  using C10_equal_content [of "[Part ''a\<newline>b\<newline>'' 2 False False]" Applied "''/w/a.txt''" "''a\<newline>b\<newline>''"
      "idleState ''a\<newline>b\<newline>''"]
  by (simp add: idleState_def targetUri_def lineEol_def LF_def CR_def)

end
